theory Spec2Isabelle
  imports Complex_Main "HOL-Library.AList" "HOL-Library.Product_Lexorder"
    "HOL-Library.Log_Nat" "HOL-Library.Sublist"
begin

section \<open>Python values, errors and loops\<close>

text \<open>
  The estimation engine of \<^verbatim>\<open>app/services/analyst_service.py\<close>: \<^verbatim>\<open>estimate_cost\<close> and
  \<^verbatim>\<open>estimate_timeline\<close>. Every exception the Python can raise on the modelled inputs is a
  value \<open>Inl e\<close> of the result; \<open>Inr\<close> carries what the function returns.
\<close>

datatype error = KeyError | TypeError | ValueError | ZeroDivisionError | OverflowError

text \<open>A \<^verbatim>\<open>for x in xs:\<close> loop whose body may raise: the first error ends the loop.\<close>

fun for_each :: "('a \<Rightarrow> 's \<Rightarrow> error + 's) \<Rightarrow> 'a list \<Rightarrow> 's \<Rightarrow> error + 's" where
  "for_each body [] s = Inr s"
| "for_each body (x # xs) s =
     (case body x s of Inl e \<Rightarrow> Inl e | Inr s' \<Rightarrow> for_each body xs s')"

text \<open>Sequencing of two computations that may raise.\<close>

definition and_then :: "error + 'a \<Rightarrow> ('a \<Rightarrow> error + 'b) \<Rightarrow> error + 'b" where
  "and_then m f = (case m of Inl e \<Rightarrow> Inl e | Inr x \<Rightarrow> f x)"

text \<open>A list comprehension \<^verbatim>\<open>[f(x) for x in xs]\<close> whose \<^verbatim>\<open>f\<close> may raise.\<close>

fun map_err :: "('a \<Rightarrow> error + 'b) \<Rightarrow> 'a list \<Rightarrow> error + 'b list" where
  "map_err f [] = Inr []"
| "map_err f (x # xs) =
     (case f x of
        Inl e \<Rightarrow> Inl e
      | Inr y \<Rightarrow> (case map_err f xs of Inl e \<Rightarrow> Inl e | Inr ys \<Rightarrow> Inr (y # ys)))"

subsection \<open>Tasks\<close>

text \<open>
  A task is a Python dict decoded from JSON. A field is \<open>None\<close> when the key is absent.
  The \<^verbatim>\<open>hours\<close> field is modelled as an integer or JSON \<^verbatim>\<open>null\<close>, the \<^verbatim>\<open>depends_on\<close> field as
  a list of ids or \<^verbatim>\<open>null\<close>; ids and roles are strings.
\<close>

datatype hours_field = HInt int | HNull

datatype deps_field = DList "string list" | DNull

record task =
  t_id :: "string option"
  t_title :: "string option"
  t_hours :: "hours_field option"
  t_role :: "string option"
  t_depends_on :: "deps_field option"

text \<open>\<^verbatim>\<open>int(v)\<close>: the identity on an integer, \<^verbatim>\<open>TypeError\<close> on \<^verbatim>\<open>None\<close>.\<close>

fun py_int :: "hours_field \<Rightarrow> error + int" where
  "py_int (HInt n) = Inr n"
| "py_int HNull = Inl TypeError"

text \<open>\<^verbatim>\<open>int(t.get("hours", 0))\<close>\<close>

definition get_hours :: "task \<Rightarrow> error + int" where
  "get_hours t = (case t_hours t of None \<Rightarrow> Inr 0 | Some v \<Rightarrow> py_int v)"

text \<open>\<^verbatim>\<open>t.get("role", "default")\<close>\<close>

definition get_role :: "task \<Rightarrow> string" where
  "get_role t = (case t_role t of None \<Rightarrow> ''default'' | Some r \<Rightarrow> r)"

subsection \<open>Python numbers\<close>

text \<open>
  A rate is a Python number, an int or a float (\<^verbatim>\<open>rates: Dict[str, float]\<close>, and the table
  \<^verbatim>\<open>DEFAULT_RATES_PER_HOUR\<close> holds ints). A float is an IEEE 754 double: a finite value, given
  by the rational number it equals, an infinity or a NaN. The sign of a zero is not kept
  (\<^verbatim>\<open>-0.0 == 0.0\<close> in Python).
\<close>

datatype pyfloat = Fin rat | PInf | NInf | NaN

datatype pynum = PInt int | PFloat pyfloat

text \<open>\<open>pow2 e\<close> is \<open>2\<^sup>e\<close> for an integer exponent.\<close>

definition pow2 :: "int \<Rightarrow> rat" where
  "pow2 e = (if 0 \<le> e then of_int (2 ^ nat e) else 1 / of_int (2 ^ nat (- e)))"

text \<open>
  \<open>ilog2 q\<close> is the floor of the binary logarithm of a positive rational: with numerator
  \<open>a\<close> and denominator \<open>b\<close> it is \<open>bitlen a - bitlen b\<close> or one less.
\<close>

definition ilog2 :: "rat \<Rightarrow> int" where
  "ilog2 q =
     (case quotient_of q of (a, b) \<Rightarrow>
        let k = bitlen a - bitlen b in if pow2 k \<le> q then k else k - 1)"

text \<open>Rounding to the nearest integer, a tie to the even one.\<close>

definition round_half_even :: "rat \<Rightarrow> int" where
  "round_half_even x =
     (let f = \<lfloor>x\<rfloor>; d = x - of_int f in if 1 / 2 < d \<or> (d = 1 / 2 \<and> odd f) then f + 1 else f)"

text \<open>
  \<open>round_double q\<close> is the double nearest to \<open>q\<close> when the exponent is not bounded above:
  a 53-bit significand, ties to the even significand, and the exponent of the last bit at
  least \<open>-1074\<close> (the subnormal numbers).
\<close>

definition round_double :: "rat \<Rightarrow> rat" where
  "round_double q =
     (if q = 0 then 0
      else
        let a = \<bar>q\<bar>;
            e = max (ilog2 a - 52) (- 1074)
        in sgn q * (of_int (round_half_even (a / pow2 e)) * pow2 e))"

text \<open>The overflow threshold of a double: rounded results of magnitude \<open>2 ^ 1024\<close> or more.\<close>

definition too_big :: "rat \<Rightarrow> bool" where
  "too_big r \<longleftrightarrow> (2::int) ^ 1024 \<le> \<lfloor>\<bar>r\<bar>\<rfloor>"

text \<open>The double an arithmetic operation returns for the exact result \<open>q\<close>.\<close>

definition float_result :: "rat \<Rightarrow> pyfloat" where
  "float_result q =
     (let r = round_double q in if too_big r then (if 0 < r then PInf else NInf) else Fin r)"

text \<open>Conversion of a Python int to float raises \<^verbatim>\<open>OverflowError\<close> when it does not fit.\<close>

definition float_of_int :: "int \<Rightarrow> error + pyfloat" where
  "float_of_int n =
     (let r = round_double (of_int n) in if too_big r then Inl OverflowError else Inr (Fin r))"

text \<open>Addition and multiplication of two doubles; an overflow is an infinity, not an error.\<close>

fun float_add :: "pyfloat \<Rightarrow> pyfloat \<Rightarrow> pyfloat" where
  "float_add (Fin a) (Fin b) = float_result (a + b)"
| "float_add NaN y = NaN"
| "float_add x NaN = NaN"
| "float_add PInf NInf = NaN"
| "float_add NInf PInf = NaN"
| "float_add PInf y = PInf"
| "float_add NInf y = NInf"
| "float_add x PInf = PInf"
| "float_add x NInf = NInf"

fun float_mul :: "pyfloat \<Rightarrow> pyfloat \<Rightarrow> pyfloat" where
  "float_mul (Fin a) (Fin b) = float_result (a * b)"
| "float_mul NaN y = NaN"
| "float_mul x NaN = NaN"
| "float_mul (Fin a) PInf = (if a = 0 then NaN else if 0 < a then PInf else NInf)"
| "float_mul (Fin a) NInf = (if a = 0 then NaN else if 0 < a then NInf else PInf)"
| "float_mul PInf (Fin b) = (if b = 0 then NaN else if 0 < b then PInf else NInf)"
| "float_mul NInf (Fin b) = (if b = 0 then NaN else if 0 < b then NInf else PInf)"
| "float_mul PInf PInf = PInf"
| "float_mul PInf NInf = NInf"
| "float_mul NInf PInf = NInf"
| "float_mul NInf NInf = PInf"

text \<open>
  \<^verbatim>\<open>hours * rate\<close> with an int \<^verbatim>\<open>hours\<close>: exact for an int rate; for a float rate \<^verbatim>\<open>hours\<close> is
  converted to float first and the product is a double.
\<close>

definition py_mul :: "int \<Rightarrow> pynum \<Rightarrow> error + pynum" where
  "py_mul h r =
     (case r of
        PInt n \<Rightarrow> Inr (PInt (h * n))
      | PFloat f \<Rightarrow> and_then (float_of_int h) (\<lambda>x. Inr (PFloat (float_mul x f))))"

text \<open>\<^verbatim>\<open>total += cost\<close> with a float \<^verbatim>\<open>total\<close>: an int \<^verbatim>\<open>cost\<close> is converted to float first.\<close>

definition float_add_num :: "pyfloat \<Rightarrow> pynum \<Rightarrow> error + pyfloat" where
  "float_add_num x c =
     (case c of
        PInt n \<Rightarrow> and_then (float_of_int n) (\<lambda>y. Inr (float_add x y))
      | PFloat f \<Rightarrow> Inr (float_add x f))"

section \<open>The cost estimator\<close>

definition DEFAULT_RATES_PER_HOUR :: "string \<rightharpoonup> pynum" where
  "DEFAULT_RATES_PER_HOUR =
     map_of [(''backend'', PInt 500), (''frontend'', PInt 350), (''devops'', PInt 600),
             (''qa'', PInt 300), (''ux'', PInt 600), (''pm'', PInt 800),
             (''default'', PInt 500)]"

record cost_line =
  c_id :: "string option"
  c_title :: "string option"
  c_hours :: int
  c_role :: string
  c_rate :: pynum
  c_cost :: pynum

record cost_estimate =
  breakdown :: "cost_line list"
  total :: pyfloat

text \<open>
  \<^verbatim>\<open>rates.get(role, rates["default"])\<close>: the default argument is evaluated before the call,
  so a table without \<^verbatim>\<open>"default"\<close> raises \<^verbatim>\<open>KeyError\<close> whatever the role.
\<close>

definition resolve_rate :: "(string \<rightharpoonup> pynum) \<Rightarrow> string \<Rightarrow> error + pynum" where
  "resolve_rate rates role =
     (case rates ''default'' of
        None \<Rightarrow> Inl KeyError
      | Some d \<Rightarrow> Inr (case rates role of None \<Rightarrow> d | Some r \<Rightarrow> r))"

text \<open>The body of the loop over the tasks; the state is \<^verbatim>\<open>(breakdown, total)\<close>.\<close>

definition cost_step ::
  "(string \<rightharpoonup> pynum) \<Rightarrow> task \<Rightarrow> cost_line list \<times> pyfloat \<Rightarrow> error + cost_line list \<times> pyfloat"
where
  "cost_step rates t s =
     and_then (get_hours t) (\<lambda>hours.
     let role = get_role t in
     and_then (resolve_rate rates role) (\<lambda>rate.
     and_then (py_mul hours rate) (\<lambda>cost.
     let line = \<lparr>c_id = t_id t, c_title = t_title t, c_hours = hours, c_role = role,
                 c_rate = rate, c_cost = cost\<rparr>
     in and_then (float_add_num (snd s) cost) (\<lambda>total'.
        Inr (fst s @ [line], total')))))"

definition estimate_cost :: "task list \<Rightarrow> (string \<rightharpoonup> pynum) option \<Rightarrow> error + cost_estimate" where
  "estimate_cost tasks rates_arg =
     (let rates = (case rates_arg of None \<Rightarrow> DEFAULT_RATES_PER_HOUR | Some r \<Rightarrow> r) in
      and_then (for_each (cost_step rates) tasks ([], Fin 0)) (\<lambda>s.
      Inr \<lparr>breakdown = fst s, total = snd s\<rparr>))"

subsection \<open>The cost lines as the specification words them\<close>

text \<open>
  The specification's cost line for a task: a missing \<^verbatim>\<open>hours\<close> field counts as zero, the
  rate is the table's entry for the role if there is one and the \<^verbatim>\<open>default\<close> entry
  otherwise, and the cost is the product of hours and rate. \<open>num_value\<close> is the number a
  finite Python number stands for.
\<close>

definition spec_hours :: "task \<Rightarrow> int" where
  "spec_hours t = (case t_hours t of Some (HInt h) \<Rightarrow> h | _ \<Rightarrow> 0)"

definition spec_rate :: "(string \<rightharpoonup> pynum) \<Rightarrow> string \<Rightarrow> pynum option" where
  "spec_rate rates role = (case rates role of Some r \<Rightarrow> Some r | None \<Rightarrow> rates ''default'')"

definition line_matches :: "(string \<rightharpoonup> pynum) \<Rightarrow> task \<Rightarrow> cost_line \<Rightarrow> bool" where
  "line_matches rates t l \<longleftrightarrow>
     c_id l = t_id t \<and> c_title l = t_title t \<and> c_hours l = spec_hours t \<and>
     c_role l = get_role t \<and> spec_rate rates (get_role t) = Some (c_rate l) \<and>
     py_mul (c_hours l) (c_rate l) = Inr (c_cost l)"

fun num_value :: "pynum \<Rightarrow> rat" where
  "num_value (PInt n) = of_int n"
| "num_value (PFloat (Fin q)) = q"
| "num_value (PFloat x) = 0"

fun is_int :: "pynum \<Rightarrow> bool" where
  "is_int (PInt n) = True"
| "is_int (PFloat x) = False"

text \<open>The exact product of hours and rate for a task.\<close>

definition exact_cost :: "(string \<rightharpoonup> pynum) \<Rightarrow> task \<Rightarrow> rat" where
  "exact_cost rates t =
     of_int (spec_hours t) * (case spec_rate rates (get_role t) of None \<Rightarrow> 0 | Some r \<Rightarrow> num_value r)"

section \<open>The dependency scheduler\<close>

subsection \<open>Dates and date strings\<close>

text \<open>
  A \<^verbatim>\<open>datetime\<close> is a day, given by its proleptic Gregorian ordinal (day 1 is 0001-01-01,
  as \<^verbatim>\<open>date.toordinal\<close>), and the microsecond within that day. Datetimes are compared
  lexicographically, which is the order of the product type.

  A date string is represented by the day it names: \<^verbatim>\<open>strftime("%d.%m.%Y")\<close> keeps the day
  and drops the time. It prints the year without padding (\<^verbatim>\<open>31.12.999\<close>), and \<^verbatim>\<open>%Y\<close> of
  \<^verbatim>\<open>strptime\<close> wants four digits: \<^verbatim>\<open>strptime\<close> of the string of a day is midnight of that day
  from the year 1000 on (day 364878) and raises \<^verbatim>\<open>ValueError\<close> before. \<open>render_date\<close> gives
  the text of a day.
\<close>

type_synonym datetime = "int \<times> int"

type_synonym date_string = int

definition MAXORDINAL :: int where
  "MAXORDINAL = 3652059"

definition valid_datetime :: "datetime \<Rightarrow> bool" where
  "valid_datetime dt \<longleftrightarrow>
     1 \<le> fst dt \<and> fst dt \<le> MAXORDINAL \<and> 0 \<le> snd dt \<and> snd dt < 86400000000"

text \<open>
  \<^verbatim>\<open>dt + timedelta(days=n)\<close>: \<^verbatim>\<open>timedelta\<close> raises \<^verbatim>\<open>OverflowError\<close> beyond 999999999 days,
  the addition raises it when the result leaves the years 1 to 9999.
\<close>

definition add_days :: "datetime \<Rightarrow> int \<Rightarrow> error + datetime" where
  "add_days dt n =
     (if 999999999 < \<bar>n\<bar> then Inl OverflowError
      else if fst dt + n < 1 \<or> MAXORDINAL < fst dt + n then Inl OverflowError
      else Inr (fst dt + n, snd dt))"

text \<open>\<^verbatim>\<open>_format_date(dt)\<close>\<close>

definition format_date :: "datetime \<Rightarrow> date_string" where
  "format_date dt = fst dt"

text \<open>\<^verbatim>\<open>datetime.strptime(s, "%d.%m.%Y")\<close>\<close>

definition strptime :: "date_string \<Rightarrow> error + datetime" where
  "strptime d = (if d < 364878 then Inl ValueError else Inr (d, 0))"

text \<open>\<^verbatim>\<open>(a - b).days\<close>: the difference is normalised to a microsecond part in \<open>[0, 1 day)\<close>.\<close>

definition delta_days :: "datetime \<Rightarrow> datetime \<Rightarrow> int" where
  "delta_days a b = fst a - fst b - (if snd a < snd b then 1 else 0)"








subsection \<open>Results\<close>

record scheduled =
  s_id :: string
  s_title :: "string option"
  s_role :: string
  s_hours :: int
  s_start_date :: date_string
  s_end_date :: date_string
  s_duration_days :: int
  s_depends_on :: "string list"

record timeline =
  tl_project_start :: date_string
  tl_project_end :: date_string
  tl_total_work_days :: int
  tl_role_days :: "(string \<times> int) list"
  tl_task_schedule :: "scheduled list"

subsection \<open>The id map and the dependency map\<close>

text \<open>
  \<^verbatim>\<open>id_map = {t["id"]: t for t in tasks}\<close>. A dict keeps its keys in the order of first
  insertion and a later task with the same id replaces the value: \<open>AList.update\<close>.
  A task without \<^verbatim>\<open>id\<close> raises \<^verbatim>\<open>KeyError\<close>.
\<close>

definition id_map_step :: "task \<Rightarrow> (string \<times> task) list \<Rightarrow> error + (string \<times> task) list" where
  "id_map_step t m =
     (case t_id t of None \<Rightarrow> Inl KeyError | Some k \<Rightarrow> Inr (AList.update k t m))"

definition build_id_map :: "task list \<Rightarrow> error + (string \<times> task) list" where
  "build_id_map tasks = for_each id_map_step tasks []"

text \<open>\<^verbatim>\<open>set(t.get("depends_on", []))\<close>: \<^verbatim>\<open>set(None)\<close> raises \<^verbatim>\<open>TypeError\<close>.\<close>

definition deps_set :: "task \<Rightarrow> error + string set" where
  "deps_set t =
     (case t_depends_on t of
        None \<Rightarrow> Inr {}
      | Some DNull \<Rightarrow> Inl TypeError
      | Some (DList ds) \<Rightarrow> Inr (set ds))"

text \<open>
  \<^verbatim>\<open>deps_map = {tid: set(id_map[tid].get("depends_on", [])) for tid in id_map}\<close>, a map from
  ids to sets (the order of a dict plays no part in how \<^verbatim>\<open>deps_map\<close> is used).
\<close>

definition deps_map_step ::
  "string \<times> task \<Rightarrow> (string \<rightharpoonup> string set) \<Rightarrow> error + (string \<rightharpoonup> string set)"
where
  "deps_map_step kt dm = and_then (deps_set (snd kt)) (\<lambda>ds. Inr (dm(fst kt \<mapsto> ds)))"

text \<open>\<^verbatim>\<open>for k in deps_map: deps_map[k] = {d for d in deps_map[k] if d in id_map}\<close>\<close>

definition drop_dangling ::
  "(string \<times> task) list \<Rightarrow> (string \<rightharpoonup> string set) \<Rightarrow> (string \<rightharpoonup> string set)"
where
  "drop_dangling id_map dm = (\<lambda>k. map_option (\<lambda>ds. ds \<inter> fst ` set id_map) (dm k))"

definition build_deps_map :: "(string \<times> task) list \<Rightarrow> error + (string \<rightharpoonup> string set)" where
  "build_deps_map id_map =
     and_then (for_each deps_map_step id_map Map.empty) (\<lambda>dm. Inr (drop_dangling id_map dm))"

subsection \<open>The topological pass\<close>

text \<open>
  \<^verbatim>\<open>remaining\<close> is a Python set. The order in which a set is iterated is not the order of
  insertion: it follows the hashes of the elements, and for strings these change from one
  process to the next. The model keeps \<^verbatim>\<open>remaining\<close> as the list of its elements in
  iteration order; \<^verbatim>\<open>set(id_map.keys())\<close> is \<open>set_order\<close> applied to the keys, where
  \<open>set_order\<close> is a parameter of the model that permutes its argument. Removing an
  element from a set leaves the others in their relative order.

  \<^verbatim>\<open>not deps_map[r]\<close> is \<open>no_deps\<close>; the subscript cannot raise, every element of
  \<^verbatim>\<open>remaining\<close> being a key of \<^verbatim>\<open>deps_map\<close>.
\<close>

definition no_deps :: "(string \<rightharpoonup> string set) \<Rightarrow> string \<Rightarrow> bool" where
  "no_deps dm r \<longleftrightarrow> dm r = Some {}"

text \<open>
  One round of \<^verbatim>\<open>for r in ready\<close>, on the state \<^verbatim>\<open>(remaining, deps_map)\<close>:
  \<^verbatim>\<open>remaining.remove(r)\<close> and \<^verbatim>\<open>deps_map[k].discard(r)\<close> for every key. What is appended to
  \<^verbatim>\<open>ordered\<close> is the list \<^verbatim>\<open>ready\<close> itself.
\<close>

definition emit ::
  "string \<Rightarrow> string list \<times> (string \<rightharpoonup> string set) \<Rightarrow> string list \<times> (string \<rightharpoonup> string set)"
where
  "emit r s = (removeAll r (fst s), (\<lambda>k. map_option (\<lambda>ds. ds - {r}) (snd s k)))"

text \<open>\<^verbatim>\<open>[r for r in remaining if not deps_map[r]]\<close>, or all of \<^verbatim>\<open>remaining\<close> if that is empty.\<close>

definition ready_batch :: "string list \<Rightarrow> (string \<rightharpoonup> string set) \<Rightarrow> string list" where
  "ready_batch remaining dm =
     (let ready = filter (no_deps dm) remaining in if ready = [] then remaining else ready)"

text \<open>The \<^verbatim>\<open>while remaining\<close> loop; the result is the list of the batches \<^verbatim>\<open>ready\<close>.\<close>

function topo_loop :: "string list \<Rightarrow> (string \<rightharpoonup> string set) \<Rightarrow> string list list" where
  "topo_loop remaining dm =
     (if remaining = [] then []
      else ready_batch remaining dm #
           topo_loop (fst (fold emit (ready_batch remaining dm) (remaining, dm)))
                     (snd (fold emit (ready_batch remaining dm) (remaining, dm))))"
  by pat_completeness auto
termination
proof (relation "measure (\<lambda>(remaining, dm). length remaining)")
  show "wf (measure (\<lambda>(remaining, dm). length remaining))"
    by simp
next
  fix remaining :: "string list" and dm :: "string \<rightharpoonup> string set"
  assume ne: "remaining \<noteq> []"
  have removed: "fst (fold emit rs s) = filter (\<lambda>x. x \<notin> set rs) (fst s)" for rs s
  proof (induction rs arbitrary: s)
    case Nil
    show ?case by simp
  next
    case (Cons r rs)
    have "filter (\<lambda>x. x \<notin> set rs) (removeAll r ys) = filter (\<lambda>x. x \<noteq> r \<and> x \<notin> set rs) ys"
      for ys :: "string list"
      by (induction ys) auto
    moreover have "fst (emit r s) = removeAll r (fst s)"
      by (simp add: emit_def)
    moreover have "fst (fold emit (r # rs) s) = filter (\<lambda>x. x \<notin> set rs) (fst (emit r s))"
      using Cons.IH [of "emit r s"] by simp
    ultimately show ?case
      by (simp add: conj_commute)
  qed
  obtain x where x: "x \<in> set (ready_batch remaining dm)" "x \<in> set remaining"
  proof (cases "filter (no_deps dm) remaining = []")
    case True
    with ne that [of "hd remaining"] show ?thesis
      by (simp add: ready_batch_def)
  next
    case False
    then obtain y where "y \<in> set (filter (no_deps dm) remaining)"
      by (meson list.set_sel(1))
    with False that [of y] show ?thesis
      by (simp add: ready_batch_def)
  qed
  then have "length (filter (\<lambda>x. x \<notin> set (ready_batch remaining dm)) remaining) < length remaining"
    by (intro length_filter_less [of x]) simp_all
  then show "((fst (fold emit (ready_batch remaining dm) (remaining, dm)),
               snd (fold emit (ready_batch remaining dm) (remaining, dm))), remaining, dm)
             \<in> measure (\<lambda>(remaining, dm). length remaining)"
    by (simp add: removed)
qed

declare topo_loop.simps [simp del]

text \<open>
  \<^verbatim>\<open>ordered\<close>: the tasks \<^verbatim>\<open>id_map[r]\<close> in the order of emission. The subscript cannot raise,
  every emitted id being a key of \<^verbatim>\<open>id_map\<close>.
\<close>

definition ordered_tasks ::
  "(string list \<Rightarrow> string list) \<Rightarrow> (string \<times> task) list \<Rightarrow> (string \<rightharpoonup> string set) \<Rightarrow> task list"
where
  "ordered_tasks set_order id_map dm =
     map (\<lambda>r. the (map_of id_map r)) (concat (topo_loop (set_order (map fst id_map)) dm))"

subsection \<open>Placing the tasks\<close>

text \<open>
  \<^verbatim>\<open>hours_to_days\<close>: Python's \<^verbatim>\<open>//\<close> is floor division, as \<open>div\<close> on \<open>int\<close> is, and
  raises \<^verbatim>\<open>ZeroDivisionError\<close> for a zero divisor.
\<close>

definition hours_to_days :: "int \<Rightarrow> int \<Rightarrow> error + int" where
  "hours_to_days daily_capacity_hours h =
     (if daily_capacity_hours = 0 then Inl ZeroDivisionError
      else Inr (max 1 ((h + daily_capacity_hours - 1) div daily_capacity_hours)))"

text \<open>
  \<^verbatim>\<open>max(0, int(round(duration_days * 0.2)))\<close>. The product is a double and \<^verbatim>\<open>round\<close> rounds
  it to the nearest integer. The statement is reached only after
  \<^verbatim>\<open>timedelta(days=duration_days - 1)\<close> has been built, so \<^verbatim>\<open>duration_days\<close> is at most \<open>10\<^sup>9\<close>;
  there the double product is within \<open>10\<^sup>-\<^sup>7\<close> of the exact fifth, which is never within
  \<open>0.1\<close> of a half-integer, so the double rounds as the exact product does and no tie
  occurs.
\<close>

definition buffer_days :: "int \<Rightarrow> int" where
  "buffer_days duration_days = max 0 (round (real_of_int duration_days * 0.2))"

text \<open>\<^verbatim>\<open>t.get("depends_on", []) or []\<close>\<close>

definition deps_list :: "task \<Rightarrow> string list" where
  "deps_list t = (case t_depends_on t of Some (DList ds) \<Rightarrow> ds | _ \<Rightarrow> [])"

record sched_state =
  dates_for_id :: "(string \<times> scheduled) list"
  role_next_free :: "string \<rightharpoonup> datetime"

text \<open>
  \<^verbatim>\<open>[strptime(dates_for_id[d]["end_date"]) for d in deps if d in dates_for_id]\<close>
\<close>

definition deps_end_dates ::
  "(string \<times> scheduled) list \<Rightarrow> string list \<Rightarrow> error + datetime list"
where
  "deps_end_dates dates deps =
     map_err strptime (List.map_filter (\<lambda>d. map_option s_end_date (map_of dates d)) deps)"

text \<open>\<^verbatim>\<open>earliest\<close>: the project start, or the day after the latest dependency end if later.\<close>

definition earliest_start :: "datetime \<Rightarrow> datetime list \<Rightarrow> error + datetime" where
  "earliest_start project_start deps_end =
     (if deps_end = [] then Inr project_start
      else and_then (add_days (Max (set deps_end)) 1) (\<lambda>after.
           Inr (max project_start after)))"

text \<open>The body of \<^verbatim>\<open>for t in ordered\<close>.\<close>

definition schedule_step :: "datetime \<Rightarrow> int \<Rightarrow> task \<Rightarrow> sched_state \<Rightarrow> error + sched_state" where
  "schedule_step project_start daily_capacity_hours t s =
     (let role = get_role t in
      and_then (get_hours t) (\<lambda>hours.
      and_then (hours_to_days daily_capacity_hours hours) (\<lambda>duration_days.
      let deps = deps_list t in
      and_then (deps_end_dates (dates_for_id s) deps) (\<lambda>deps_end.
      and_then (earliest_start project_start deps_end) (\<lambda>earliest.
      let role_free = (case role_next_free s role of None \<Rightarrow> project_start | Some f \<Rightarrow> f);
          start = max earliest role_free
      in
      and_then (add_days start (duration_days - 1)) (\<lambda>end_plain.
      let buffer = buffer_days duration_days in
      and_then (add_days end_plain buffer) (\<lambda>end_with_buffer.
      and_then (case t_id t of None \<Rightarrow> Inl KeyError | Some i \<Rightarrow> Inr i) (\<lambda>tid.
      let entry = \<lparr>s_id = tid, s_title = t_title t, s_role = role, s_hours = hours,
                   s_start_date = format_date start,
                   s_end_date = format_date end_with_buffer,
                   s_duration_days = duration_days + buffer,
                   s_depends_on = deps\<rparr>
      in
      and_then (add_days end_with_buffer 1) (\<lambda>next_free.
      Inr \<lparr>dates_for_id = AList.update tid entry (dates_for_id s),
           role_next_free = (role_next_free s)(role \<mapsto> next_free)\<rparr>)))))))))"

subsection \<open>Totals\<close>

text \<open>
  \<^verbatim>\<open>project_end\<close>: the latest of the end dates, each read back by \<^verbatim>\<open>strptime\<close> (so at
  midnight), or the project start when there are no tasks.
\<close>

definition project_end_of ::
  "datetime \<Rightarrow> (string \<times> scheduled) list \<Rightarrow> error + datetime"
where
  "project_end_of project_start dates =
     (if dates = [] then Inr project_start
      else and_then (map_err strptime (map (\<lambda>kv. s_end_date (snd kv)) dates)) (\<lambda>ends.
           Inr (Max (set ends))))"

text \<open>\<^verbatim>\<open>role_days.setdefault(v["role"], 0); role_days[v["role"]] += v["duration_days"]\<close>\<close>

definition role_days_step :: "scheduled \<Rightarrow> (string \<times> int) list \<Rightarrow> (string \<times> int) list" where
  "role_days_step v rd =
     AList.update (s_role v)
       ((case map_of rd (s_role v) of None \<Rightarrow> 0 | Some n \<Rightarrow> n) + s_duration_days v) rd"

text \<open>
  \<^verbatim>\<open>estimate_timeline\<close>. The caller passes \<^verbatim>\<open>project_start\<close> (\<^verbatim>\<open>analyze_project\<close> passes
  \<^verbatim>\<open>datetime.now()\<close>, which is also what the default \<^verbatim>\<open>None\<close> stands for).
\<close>

definition estimate_timeline ::
  "(string list \<Rightarrow> string list) \<Rightarrow> task list \<Rightarrow> datetime \<Rightarrow> int \<Rightarrow> error + timeline"
where
  "estimate_timeline set_order tasks project_start daily_capacity_hours =
     and_then (build_id_map tasks) (\<lambda>id_map.
     and_then (build_deps_map id_map) (\<lambda>deps_map.
     let ordered = ordered_tasks set_order id_map deps_map in
     and_then (for_each (schedule_step project_start daily_capacity_hours) ordered
                 \<lparr>dates_for_id = [], role_next_free = Map.empty\<rparr>) (\<lambda>s.
     and_then (project_end_of project_start (dates_for_id s)) (\<lambda>project_end.
     let total_days = delta_days project_end project_start + 1;
         role_days = fold role_days_step (map snd (dates_for_id s)) []
     in Inr \<lparr>tl_project_start = format_date project_start,
             tl_project_end = format_date project_end,
             tl_total_work_days = total_days,
             tl_role_days = role_days,
             tl_task_schedule = map snd (dates_for_id s)\<rparr>))))"

text \<open>Example inputs of the cost estimator.\<close>

definition cost_example :: "task list" where
  "cost_example =
     [\<lparr>t_id = Some ''T1'', t_title = Some ''API'', t_hours = Some (HInt 8),
       t_role = Some ''backend'', t_depends_on = None\<rparr>,
      \<lparr>t_id = Some ''T2'', t_title = None, t_hours = None,
       t_role = Some ''designer'', t_depends_on = None\<rparr>,
      \<lparr>t_id = None, t_title = Some ''Tests'', t_hours = Some (HInt 3),
       t_role = None, t_depends_on = None\<rparr>]"

definition cost_example_lines :: "cost_line list" where
  "cost_example_lines =
     [\<lparr>c_id = Some ''T1'', c_title = Some ''API'', c_hours = 8, c_role = ''backend'',
       c_rate = PInt 500, c_cost = PInt 4000\<rparr>,
      \<lparr>c_id = Some ''T2'', c_title = None, c_hours = 0, c_role = ''designer'',
       c_rate = PInt 500, c_cost = PInt 0\<rparr>,
      \<lparr>c_id = None, c_title = Some ''Tests'', c_hours = 3, c_role = ''default'',
       c_rate = PInt 500, c_cost = PInt 1500\<rparr>]"

definition one_task :: "hours_field \<Rightarrow> task" where
  "one_task h = \<lparr>t_id = Some ''T1'', t_title = Some ''Job'', t_hours = Some h,
                 t_role = Some ''dev'', t_depends_on = None\<rparr>"

definition unit_rates :: "string \<rightharpoonup> pynum" where
  "unit_rates = map_of [(''default'', PInt 1)]"

definition big_line :: cost_line where
  "big_line = \<lparr>c_id = Some ''T1'', c_title = Some ''Job'', c_hours = 9007199254740993,
               c_role = ''dev'', c_rate = PInt 1, c_cost = PInt 9007199254740993\<rparr>"

text \<open>The double \<^verbatim>\<open>0.1\<close>.\<close>

definition tenth :: rat where
  "tenth = 3602879701896397 / 36028797018963968"

definition tenth_rates :: "string \<rightharpoonup> pynum" where
  "tenth_rates = map_of [(''default'', PFloat (Fin tenth))]"

definition tenth_line :: cost_line where
  "tenth_line = \<lparr>c_id = Some ''T1'', c_title = Some ''Job'', c_hours = 1, c_role = ''dev'',
                 c_rate = PFloat (Fin tenth), c_cost = PFloat (Fin tenth)\<rparr>"

definition has_id :: "task \<Rightarrow> bool" where
  "has_id t \<longleftrightarrow> t_id t \<noteq> None"

definition task_ids :: "task list \<Rightarrow> string set" where
  "task_ids tasks = {k. \<exists>t\<in>set tasks. t_id t = Some k}"

definition strike :: "string list \<Rightarrow> (string \<rightharpoonup> string set) \<Rightarrow> (string \<rightharpoonup> string set)" where
  "strike rs dm = (\<lambda>k. map_option (\<lambda>ds. ds - set rs) (dm k))"

definition role_free_of :: "datetime \<Rightarrow> sched_state \<Rightarrow> string \<Rightarrow> datetime" where
  "role_free_of ps s role = (case role_next_free s role of None \<Rightarrow> ps | Some f \<Rightarrow> f)"

definition raw_days :: "int \<Rightarrow> int \<Rightarrow> int" where
  "raw_days cap h = max 1 ((h + cap - 1) div cap)"

definition entry_of :: "int \<Rightarrow> task \<Rightarrow> string \<Rightarrow> int \<Rightarrow> int \<Rightarrow> scheduled" where
  "entry_of cap t tid hours start_day =
     \<lparr>s_id = tid, s_title = t_title t, s_role = get_role t, s_hours = hours,
      s_start_date = start_day,
      s_end_date = start_day + (raw_days cap hours - 1) + buffer_days (raw_days cap hours),
      s_duration_days = raw_days cap hours + buffer_days (raw_days cap hours),
      s_depends_on = deps_list t\<rparr>"

definition entry_ok :: "datetime \<Rightarrow> int \<Rightarrow> sched_state \<Rightarrow> string \<times> scheduled \<Rightarrow> bool" where
  "entry_ok ps cap s ke \<longleftrightarrow>
     s_id (snd ke) = fst ke \<and>
     fst ps \<le> s_start_date (snd ke) \<and>
     s_start_date (snd ke) \<le> s_end_date (snd ke) \<and>
     (\<exists>f. role_next_free s (s_role (snd ke)) = Some f \<and> s_end_date (snd ke) < fst f)"

definition role_apart :: "scheduled \<Rightarrow> scheduled \<Rightarrow> bool" where
  "role_apart a b \<longleftrightarrow> (s_role a = s_role b \<longrightarrow> s_end_date a < s_start_date b)"

definition dep_apart :: "scheduled \<Rightarrow> scheduled \<Rightarrow> bool" where
  "dep_apart b a \<longleftrightarrow> (s_id b \<in> set (s_depends_on a) \<longrightarrow> s_end_date b < s_start_date a)"

definition sched_inv :: "datetime \<Rightarrow> int \<Rightarrow> sched_state \<Rightarrow> bool" where
  "sched_inv ps cap s \<longleftrightarrow>
     distinct (map fst (dates_for_id s)) \<and>
     (\<forall>ke\<in>set (dates_for_id s). entry_ok ps cap s ke) \<and>
     sorted_wrt role_apart (map snd (dates_for_id s)) \<and>
     sorted_wrt dep_apart (map snd (dates_for_id s))"

definition entry_for :: "int \<Rightarrow> task \<Rightarrow> scheduled \<Rightarrow> bool" where
  "entry_for cap t e \<longleftrightarrow>
     t_id t = Some (s_id e) \<and> get_hours t = Inr (s_hours e) \<and> s_role e = get_role t \<and>
     s_title e = t_title t \<and> s_depends_on e = deps_list t \<and>
     s_duration_days e = raw_days cap (s_hours e) + buffer_days (raw_days cap (s_hours e)) \<and>
     s_end_date e = s_start_date e + s_duration_days e - 1"

definition is_set_order :: "(string list \<Rightarrow> string list) \<Rightarrow> bool" where
  "is_set_order so \<longleftrightarrow> (\<forall>xs. distinct xs \<longrightarrow> distinct (so xs) \<and> set (so xs) = set xs)"

definition emitted_batches :: "(string list \<Rightarrow> string list) \<Rightarrow> task list \<Rightarrow> string list list" where
  "emitted_batches so tasks =
     (case build_id_map tasks of
        Inl e \<Rightarrow> []
      | Inr idm \<Rightarrow> (case build_deps_map idm of
                      Inl e \<Rightarrow> []
                    | Inr dm \<Rightarrow> topo_loop (so (map fst idm)) dm))"

definition init_state :: sched_state where
  "init_state = \<lparr>dates_for_id = [], role_next_free = Map.empty\<rparr>"






definition example_tasks :: "task list" where
  "example_tasks =
     [\<lparr>t_id = Some ''T1'', t_title = Some ''API'', t_hours = Some (HInt 8),
       t_role = Some ''backend'', t_depends_on = Some (DList [''T3'', ''T9''])\<rparr>,
      \<lparr>t_id = Some ''T2'', t_title = Some ''Schema'', t_hours = None,
       t_role = Some ''backend'', t_depends_on = None\<rparr>,
      \<lparr>t_id = Some ''T3'', t_title = None, t_hours = Some (HInt 20),
       t_role = None, t_depends_on = Some (DList [''T1''])\<rparr>]"

definition example_start :: datetime where
  "example_start = (738886, 54000000000)"

definition example_timeline :: timeline where
  "example_timeline =
     \<lparr>tl_project_start = 738886, tl_project_end = 738893, tl_total_work_days = 7,
      tl_role_days = [(''backend'', 3), (''default'', 5)],
      tl_task_schedule =
        [\<lparr>s_id = ''T2'', s_title = Some ''Schema'', s_role = ''backend'', s_hours = 0,
          s_start_date = 738886, s_end_date = 738886, s_duration_days = 1,
          s_depends_on = []\<rparr>,
         \<lparr>s_id = ''T1'', s_title = Some ''API'', s_role = ''backend'', s_hours = 8,
          s_start_date = 738887, s_end_date = 738888, s_duration_days = 2,
          s_depends_on = [''T3'', ''T9'']\<rparr>,
         \<lparr>s_id = ''T3'', s_title = None, s_role = ''default'', s_hours = 20,
          s_start_date = 738889, s_end_date = 738893, s_duration_days = 5,
          s_depends_on = [''T1'']\<rparr>]\<rparr>"




section \<open>Properties of the cost estimator\<close>

lemma and_then_Inr [simp]: "and_then (Inr x) f = f x"
  by (simp add: and_then_def)

lemma and_then_Inl [simp]: "and_then (Inl e) f = Inl e"
  by (simp add: and_then_def)

lemma and_then_eq_Inr:
  "and_then m f = Inr y \<longleftrightarrow> (\<exists>x. m = Inr x \<and> f x = Inr y)"
  by (cases m) simp_all

lemma for_each_Cons_Inr:
  "for_each body (x # xs) s = Inr r \<longleftrightarrow> (\<exists>s'. body x s = Inr s' \<and> for_each body xs s' = Inr r)"
  by (cases "body x s") simp_all

lemma get_hours_Inr: "get_hours t = Inr h \<Longrightarrow> h = spec_hours t \<and> t_hours t \<noteq> Some HNull"
  by (auto simp: get_hours_def spec_hours_def split: option.splits hours_field.splits)

lemma get_hours_typed:
  "t_hours t \<noteq> Some HNull \<Longrightarrow> get_hours t = Inr (spec_hours t)"
  by (auto simp: get_hours_def spec_hours_def split: option.splits hours_field.splits)

lemma resolve_rate_Inr: "resolve_rate rates role = Inr r \<Longrightarrow> spec_rate rates role = Some r"
  by (auto simp: resolve_rate_def spec_rate_def split: option.splits)

lemma resolve_rate_default:
  "rates ''default'' = Some d \<Longrightarrow> \<exists>r. resolve_rate rates role = Inr r \<and> spec_rate rates role = Some r"
  by (simp add: resolve_rate_def spec_rate_def split: option.splits)

subsection \<open>Every line is the specification's line\<close>

lemma cost_step_Inr:
  assumes "cost_step rates t s = Inr s'"
  shows "\<exists>l x. s' = (fst s @ [l], x) \<and> line_matches rates t l \<and>
               float_add_num (snd s) (c_cost l) = Inr x"
proof -
  from assms obtain h r c x where h: "get_hours t = Inr h"
    and r: "resolve_rate rates (get_role t) = Inr r"
    and c: "py_mul h r = Inr c"
    and x: "float_add_num (snd s) c = Inr x"
    and s': "s' = (fst s @ [\<lparr>c_id = t_id t, c_title = t_title t, c_hours = h,
                               c_role = get_role t, c_rate = r, c_cost = c\<rparr>], x)"
    unfolding cost_step_def Let_def and_then_eq_Inr by auto
  from h r c have "line_matches rates t \<lparr>c_id = t_id t, c_title = t_title t, c_hours = h,
                               c_role = get_role t, c_rate = r, c_cost = c\<rparr>"
    by (simp add: line_matches_def get_hours_Inr resolve_rate_Inr)
  with s' x show ?thesis by auto
qed

lemma cost_loop_lines:
  "for_each (cost_step rates) ts s = Inr s' \<Longrightarrow>
     \<exists>ls. fst s' = fst s @ ls \<and> list_all2 (line_matches rates) ts ls"
proof (induction ts arbitrary: s)
  case Nil
  then show ?case by simp
next
  case (Cons t ts)
  from Cons.prems obtain s1 where s1: "cost_step rates t s = Inr s1"
    and rest: "for_each (cost_step rates) ts s1 = Inr s'"
    unfolding for_each_Cons_Inr by blast
  from cost_step_Inr [OF s1] obtain l where l: "fst s1 = fst s @ [l]" "line_matches rates t l"
    by auto
  from Cons.IH [OF rest] obtain ls where "fst s' = fst s1 @ ls" "list_all2 (line_matches rates) ts ls"
    by blast
  with l have "fst s' = fst s @ (l # ls)" "list_all2 (line_matches rates) (t # ts) (l # ls)"
    by simp_all
  then show ?case by blast
qed

lemma estimate_cost_lines:
  assumes "estimate_cost tasks (Some rates) = Inr ce"
  shows "list_all2 (line_matches rates) tasks (breakdown ce)"
proof -
  from assms obtain s where s: "for_each (cost_step rates) tasks ([], Fin 0) = Inr s"
    and ce: "ce = \<lparr>breakdown = fst s, total = snd s\<rparr>"
    by (auto simp: estimate_cost_def and_then_eq_Inr)
  from cost_loop_lines [OF s] ce show ?thesis by auto
qed

subsection \<open>Integers up to \<open>2 ^ 53\<close> are doubles\<close>

lemma bitlen_one: "bitlen 1 = 1"
  using bitlen_twopow_add_eq [of 0 0] by simp

lemma ilog2_of_int:
  assumes "0 < a"
  shows "ilog2 (of_int a) = bitlen a - 1"
proof -
  have b1: "1 \<le> bitlen a" using assms by (simp add: bitlen_ge_iff_power)
  have "2 ^ nat (bitlen a - 1) \<le> a" using bitlen_bounds [OF assms] by simp
  then have "(of_int (2 ^ nat (bitlen a - 1)) :: rat) \<le> of_int a"
    by (simp only: of_int_le_iff)
  with b1 have "pow2 (bitlen a - 1) \<le> of_int a"
    by (simp add: pow2_def)
  then show ?thesis
    by (simp add: ilog2_def bitlen_one)
qed

lemma round_half_even_of_int: "round_half_even (of_int m) = m"
  by (simp add: round_half_even_def)

lemma pow2_nonpos:
  assumes "e \<le> 0"
  shows "x / pow2 e = x * of_int (2 ^ nat (- e))" and "of_int (2 ^ nat (- e)) * pow2 e = 1"
proof -
  have "pow2 e = 1 / of_int (2 ^ nat (- e))"
    using assms by (cases "e = 0") (simp_all add: pow2_def)
  then show "x / pow2 e = x * of_int (2 ^ nat (- e))" and "of_int (2 ^ nat (- e)) * pow2 e = 1"
    by simp_all
qed

lemma round_double_two53: "round_double 9007199254740992 = 9007199254740992"
  by code_simp

lemma round_double_minus: "round_double (- q) = - round_double q"
  by (simp add: round_double_def Let_def)

lemma round_double_pos_int:
  assumes "0 < a" and "a \<le> 2 ^ 53"
  shows "round_double (of_int a) = of_int a"
proof (cases "a < 2 ^ 53")
  case True
  then have "bitlen a \<le> 53" by (simp add: bitlen_le_iff_power)
  moreover have "1 \<le> bitlen a" using assms(1) by (simp add: bitlen_ge_iff_power)
  ultimately have e: "max (ilog2 (of_int a) - 52) (- 1074) = bitlen a - 53" and le: "bitlen a - 53 \<le> 0"
    by (simp_all add: ilog2_of_int [OF assms(1)])
  let ?m = "2 ^ nat (- (bitlen a - 53)) :: int"
  have "round_half_even (of_int a / pow2 (bitlen a - 53)) = a * ?m"
    by (simp only: pow2_nonpos(1) [OF le] of_int_mult [symmetric] round_half_even_of_int)
  then have "of_int (round_half_even (of_int a / pow2 (bitlen a - 53))) * pow2 (bitlen a - 53)
      = of_int a * (of_int ?m * pow2 (bitlen a - 53))"
    by simp
  also have "\<dots> = of_int a" by (simp only: pow2_nonpos(2) [OF le] mult_1_right)
  finally show ?thesis
    using assms(1) e by (simp add: round_double_def Let_def)
next
  case False
  with assms have "a = 9007199254740992" by simp
  then show ?thesis using round_double_two53 by simp
qed

lemma round_double_int_exact:
  assumes "\<bar>n\<bar> \<le> 2 ^ 53"
  shows "round_double (of_int n) = of_int n"
proof -
  consider "n = 0" | "0 < n" | "n < 0" by linarith
  then show ?thesis
  proof cases
    case 1
    then show ?thesis by (simp add: round_double_def)
  next
    case 2
    with assms show ?thesis by (intro round_double_pos_int) simp_all
  next
    case 3
    with assms have "round_double (of_int (- n)) = of_int (- n)"
      by (intro round_double_pos_int) simp_all
    then show ?thesis by (simp add: round_double_minus)
  qed
qed

lemma not_too_big_int: "\<bar>n\<bar> \<le> 2 ^ 53 \<Longrightarrow> \<not> too_big (of_int n)"
proof -
  assume "\<bar>n\<bar> \<le> 2 ^ 53"
  moreover have "(2::int) ^ 53 < 2 ^ 1024" by simp
  moreover have "\<lfloor>\<bar>of_int n :: rat\<bar>\<rfloor> = \<bar>n\<bar>"
    by (metis floor_of_int of_int_abs)
  ultimately show ?thesis by (simp add: too_big_def)
qed

lemma float_of_int_exact:
  "\<bar>n\<bar> \<le> 2 ^ 53 \<Longrightarrow> float_of_int n = Inr (Fin (of_int n))"
  by (simp add: float_of_int_def round_double_int_exact not_too_big_int)

lemma float_add_exact:
  assumes "\<bar>a + b\<bar> \<le> 2 ^ 53"
  shows "float_add (Fin (of_int a)) (Fin (of_int b)) = Fin (of_int (a + b))"
proof -
  have "round_double (of_int (a + b)) = of_int (a + b)"
    using assms by (rule round_double_int_exact)
  moreover have "\<not> too_big (of_int (a + b))"
    using assms by (rule not_too_big_int)
  ultimately have "float_result (of_int (a + b)) = Fin (of_int (a + b))"
    by (simp only: float_result_def Let_def if_False)
  then show ?thesis by (simp only: float_add.simps of_int_add)
qed

subsection \<open>The total of integer costs\<close>

lemma sum_list_abs_nonneg: "0 \<le> (\<Sum>t\<leftarrow>ts. \<bar>f t :: rat\<bar>)"
  by (induction ts) simp_all

lemma int_le_two53: "(of_int x :: rat) \<le> 2 ^ 53 \<Longrightarrow> x \<le> 2 ^ 53"
proof -
  assume "(of_int x :: rat) \<le> 2 ^ 53"
  then have "(of_int x :: rat) \<le> of_int (2 ^ 53)" by simp
  then show ?thesis by (simp only: of_int_le_iff)
qed

lemma spec_rate_is_int:
  assumes "\<forall>r v. rates r = Some v \<longrightarrow> is_int v" and "spec_rate rates role = Some r"
  shows "\<exists>n. r = PInt n"
proof -
  from assms(2) have "rates role = Some r \<or> rates ''default'' = Some r"
    by (auto simp: spec_rate_def split: option.splits)
  with assms(1) have "is_int r" by blast
  then show ?thesis by (cases r) simp_all
qed

lemma cost_step_int:
  assumes d: "rates ''default'' = Some d0"
    and ints: "\<forall>r v. rates r = Some v \<longrightarrow> is_int v"
    and typed: "t_hours t \<noteq> Some HNull"
    and bound: "\<bar>of_int a\<bar> + \<bar>exact_cost rates t\<bar> \<le> (2 ^ 53 :: rat)"
  shows "\<exists>l c. cost_step rates t (bd, Fin (of_int a)) = Inr (bd @ [l], Fin (of_int (a + c))) \<and>
           exact_cost rates t = of_int c \<and> c_cost l = PInt c \<and>
           num_value (c_cost l) = of_int (c_hours l) * num_value (c_rate l)"
proof -
  from resolve_rate_default [where rates = rates and d = d0 and role = "get_role t"] d
  obtain r where r: "resolve_rate rates (get_role t) = Inr r"
    and sr: "spec_rate rates (get_role t) = Some r" by blast
  from spec_rate_is_int [OF ints sr] obtain n where n: "r = PInt n" by blast
  let ?h = "spec_hours t"
  let ?c = "?h * n"
  have ec: "exact_cost rates t = of_int ?c"
    by (simp add: exact_cost_def sr n)
  have "\<bar>of_int ?c :: rat\<bar> \<le> 2 ^ 53" using bound ec by simp
  then have "(of_int \<bar>?c\<bar> :: rat) \<le> 2 ^ 53" by (simp only: of_int_abs)
  then have c53: "\<bar>?c\<bar> \<le> 2 ^ 53" by (rule int_le_two53)
  have "\<bar>of_int (a + ?c) :: rat\<bar> \<le> \<bar>of_int a\<bar> + \<bar>of_int ?c\<bar>"
    by (simp only: of_int_add abs_triangle_ineq)
  with bound ec have "\<bar>of_int (a + ?c) :: rat\<bar> \<le> 2 ^ 53" by simp
  then have "(of_int \<bar>a + ?c\<bar> :: rat) \<le> 2 ^ 53" by (simp only: of_int_abs)
  then have s53: "\<bar>a + ?c\<bar> \<le> 2 ^ 53" by (rule int_le_two53)
  have add: "float_add_num (Fin (of_int a)) (PInt ?c) = Inr (Fin (of_int (a + ?c)))"
    by (simp only: float_add_num_def pynum.case float_of_int_exact [OF c53] and_then_Inr
        float_add_exact [OF s53])
  let ?l = "\<lparr>c_id = t_id t, c_title = t_title t, c_hours = ?h, c_role = get_role t,
             c_rate = PInt n, c_cost = PInt ?c\<rparr>"
  have "cost_step rates t (bd, Fin (of_int a)) = Inr (bd @ [?l], Fin (of_int (a + ?c)))"
    using add by (simp add: cost_step_def get_hours_typed [OF typed] r n py_mul_def)
  moreover have "num_value (c_cost ?l) = of_int (c_hours ?l) * num_value (c_rate ?l)" by simp
  ultimately show ?thesis using ec by (intro exI [of _ ?l] exI [of _ ?c]) simp
qed

lemma cost_loop_int:
  assumes d: "rates ''default'' = Some d0"
    and ints: "\<forall>r v. rates r = Some v \<longrightarrow> is_int v"
  shows "(\<forall>t\<in>set ts. t_hours t \<noteq> Some HNull) \<Longrightarrow>
         \<bar>of_int a\<bar> + (\<Sum>t\<leftarrow>ts. \<bar>exact_cost rates t\<bar>) \<le> (2 ^ 53 :: rat) \<Longrightarrow>
         \<exists>ls. for_each (cost_step rates) ts (bd, Fin (of_int a))
                 = Inr (bd @ ls, Fin (of_int a + (\<Sum>l\<leftarrow>ls. num_value (c_cost l)))) \<and>
              (\<forall>l\<in>set ls. num_value (c_cost l) = of_int (c_hours l) * num_value (c_rate l))"
proof (induction ts arbitrary: a bd)
  case Nil
  then show ?case by simp
next
  case (Cons t ts)
  from Cons.prems(1) have typed: "t_hours t \<noteq> Some HNull" and rest: "\<forall>t\<in>set ts. t_hours t \<noteq> Some HNull"
    by simp_all
  have nn: "0 \<le> (\<Sum>t\<leftarrow>ts. \<bar>exact_cost rates t\<bar>)" by (rule sum_list_abs_nonneg)
  from Cons.prems(2) nn have b1: "\<bar>of_int a\<bar> + \<bar>exact_cost rates t\<bar> \<le> (2 ^ 53 :: rat)" by simp
  from cost_step_int [OF d ints typed b1, of bd] obtain l c
    where step: "cost_step rates t (bd, Fin (of_int a)) = Inr (bd @ [l], Fin (of_int (a + c)))"
      and ec: "exact_cost rates t = of_int c" and cl: "c_cost l = PInt c"
      and prod: "num_value (c_cost l) = of_int (c_hours l) * num_value (c_rate l)"
    by blast
  have "\<bar>of_int (a + c) :: rat\<bar> \<le> \<bar>of_int a\<bar> + \<bar>of_int c\<bar>"
    by (simp only: of_int_add abs_triangle_ineq)
  with Cons.prems(2) ec
  have b2: "\<bar>of_int (a + c)\<bar> + (\<Sum>t\<leftarrow>ts. \<bar>exact_cost rates t\<bar>) \<le> (2 ^ 53 :: rat)" by simp
  from Cons.IH [OF rest b2, of "bd @ [l]"] obtain ls
    where loop: "for_each (cost_step rates) ts (bd @ [l], Fin (of_int (a + c)))
                 = Inr ((bd @ [l]) @ ls, Fin (of_int (a + c) + (\<Sum>l\<leftarrow>ls. num_value (c_cost l))))"
      and prods: "\<forall>l\<in>set ls. num_value (c_cost l) = of_int (c_hours l) * num_value (c_rate l)"
    by blast
  have "for_each (cost_step rates) (t # ts) (bd, Fin (of_int a))
        = Inr (bd @ (l # ls), Fin (of_int a + (\<Sum>l\<leftarrow>l # ls. num_value (c_cost l))))"
    using step loop cl by (simp add: add.assoc)
  moreover have "\<forall>l\<in>set (l # ls). num_value (c_cost l) = of_int (c_hours l) * num_value (c_rate l)"
    using prod prods by simp
  ultimately show ?case by blast
qed

lemma estimate_cost_int_total:
  assumes d: "rates ''default'' \<noteq> None"
    and ints: "\<forall>r v. rates r = Some v \<longrightarrow> is_int v"
    and typed: "\<forall>t\<in>set tasks. t_hours t \<noteq> Some HNull"
    and bound: "(\<Sum>t\<leftarrow>tasks. \<bar>exact_cost rates t\<bar>) \<le> 2 ^ 53"
  shows "\<exists>ce. estimate_cost tasks (Some rates) = Inr ce \<and>
            total ce = Fin (\<Sum>l\<leftarrow>breakdown ce. num_value (c_cost l)) \<and>
            (\<forall>l\<in>set (breakdown ce). num_value (c_cost l) = of_int (c_hours l) * num_value (c_rate l))"
proof -
  from d obtain d0 where d0: "rates ''default'' = Some d0" by blast
  from bound have b: "\<bar>of_int 0\<bar> + (\<Sum>t\<leftarrow>tasks. \<bar>exact_cost rates t\<bar>) \<le> (2 ^ 53 :: rat)" by simp
  from cost_loop_int [OF d0 ints typed b, of "[]"] obtain ls
    where loop: "for_each (cost_step rates) tasks ([], Fin 0)
                 = Inr (ls, Fin (\<Sum>l\<leftarrow>ls. num_value (c_cost l)))"
      and prods: "\<forall>l\<in>set ls. num_value (c_cost l) = of_int (c_hours l) * num_value (c_rate l)"
    by auto
  show ?thesis using loop prods by (simp add: estimate_cost_def)
qed

text \<open>
  Claim C1, as the code has it. Whenever \<open>estimate_cost\<close> returns, the breakdown has one
  line for each task, in the order of the input, carrying the task's id and title, its hours
  (zero when absent), its role (\<open>default\<close> when absent), the rate of that role (the
  \<open>default\<close> rate when the table has no entry for the role) and, as cost, the Python product
  \<open>hours * rate\<close>. If moreover the table has a \<open>default\<close> entry, every rate of the table is
  an int, no task has a null \<open>hours\<close> field and the magnitudes of the exact products sum to
  at most \<open>2 ^ 53\<close>, then \<open>estimate_cost\<close> does return, every cost is the exact product of
  hours and rate, and the total is the float whose value is the exact sum of the costs.
\<close>

theorem estimate_cost_lines_and_total:
  "(\<forall>ce. estimate_cost tasks (Some rates) = Inr ce \<longrightarrow>
         list_all2 (line_matches rates) tasks (breakdown ce)) \<and>
   (rates ''default'' \<noteq> None \<and> (\<forall>r v. rates r = Some v \<longrightarrow> is_int v) \<and>
    (\<forall>t\<in>set tasks. t_hours t \<noteq> Some HNull) \<and>
    (\<Sum>t\<leftarrow>tasks. \<bar>exact_cost rates t\<bar>) \<le> 2 ^ 53 \<longrightarrow>
    (\<exists>ce. estimate_cost tasks (Some rates) = Inr ce \<and>
          total ce = Fin (\<Sum>l\<leftarrow>breakdown ce. num_value (c_cost l)) \<and>
          (\<forall>l\<in>set (breakdown ce).
             num_value (c_cost l) = of_int (c_hours l) * num_value (c_rate l))))"
  using estimate_cost_lines estimate_cost_int_total by blast

lemma cost_example_run:
  "estimate_cost cost_example (Some DEFAULT_RATES_PER_HOUR)
     = Inr \<lparr>breakdown = cost_example_lines, total = Fin 5500\<rparr>"
  by code_simp

lemma default_rates_int: "DEFAULT_RATES_PER_HOUR r = Some v \<Longrightarrow> is_int v"
  by (auto simp: DEFAULT_RATES_PER_HOUR_def split: if_splits)

lemma cost_example_bound:
  "(\<Sum>t\<leftarrow>cost_example. \<bar>exact_cost DEFAULT_RATES_PER_HOUR t\<bar>) \<le> 2 ^ 53"
  by (simp add: cost_example_def exact_cost_def spec_rate_def spec_hours_def get_role_def
      DEFAULT_RATES_PER_HOUR_def)

theorem estimate_cost_lines_and_total_witness:
  "\<exists>ce. estimate_cost cost_example (Some DEFAULT_RATES_PER_HOUR) = Inr ce \<and>
        breakdown ce = cost_example_lines \<and>
        list_all2 (line_matches DEFAULT_RATES_PER_HOUR) cost_example (breakdown ce) \<and>
        total ce = Fin (\<Sum>l\<leftarrow>breakdown ce. num_value (c_cost l)) \<and>
        total ce = Fin 5500"
proof -
  have d: "DEFAULT_RATES_PER_HOUR ''default'' \<noteq> None"
    by (simp add: DEFAULT_RATES_PER_HOUR_def)
  have i: "\<forall>r v. DEFAULT_RATES_PER_HOUR r = Some v \<longrightarrow> is_int v"
    using default_rates_int by blast
  have t: "\<forall>t\<in>set cost_example. t_hours t \<noteq> Some HNull"
    by (simp add: cost_example_def)
  from estimate_cost_lines_and_total [of cost_example DEFAULT_RATES_PER_HOUR]
    d i t cost_example_bound
  show ?thesis by (auto simp: cost_example_run)
qed

text \<open>
  The claim as the specification words it fails in four ways. A total above \<open>2 ^ 53\<close> is
  rounded: one task of \<open>2 ^ 53 + 1\<close> hours at rate 1 costs 9007199254740993 and the total
  is 9007199254740992. A float rate makes the total a rounded sum: three one-hour tasks at
  the rate \<^verbatim>\<open>0.1\<close> cost \<^verbatim>\<open>0.1\<close> each and the total is \<^verbatim>\<open>0.30000000000000004\<close>, which is
  not three times the cost. A null \<open>hours\<close> field raises \<^verbatim>\<open>TypeError\<close>, and a task of
  \<open>2 ^ 1024\<close> hours at rate 1 raises \<^verbatim>\<open>OverflowError\<close>: no breakdown is returned.
\<close>

lemma counterexample_rounding:
  "estimate_cost [one_task (HInt 9007199254740993)] (Some unit_rates)
     = Inr \<lparr>breakdown = [big_line], total = Fin 9007199254740992\<rparr>"
  by code_simp

lemma counterexample_float_rate:
  "estimate_cost [one_task (HInt 1), one_task (HInt 1), one_task (HInt 1)] (Some tenth_rates)
     = Inr \<lparr>breakdown = [tenth_line, tenth_line, tenth_line],
            total = Fin (1351079888211149 / 4503599627370496)\<rparr>"
  by code_simp

lemma tenth_is_double: "round_double (1 / 10) = tenth"
  by code_simp

lemma counterexample_null_hours:
  "estimate_cost [one_task HNull] (Some unit_rates) = Inl TypeError"
  by code_simp

lemma counterexample_overflow:
  "estimate_cost [one_task (HInt (2 ^ 1024))] (Some unit_rates) = Inl OverflowError"
  by code_simp

theorem estimate_cost_total_counterexample:
  "estimate_cost [one_task (HInt 9007199254740993)] (Some unit_rates)
     = Inr \<lparr>breakdown = [big_line], total = Fin 9007199254740992\<rparr> \<and>
   num_value (c_cost big_line) = 9007199254740993 \<and>
   estimate_cost [one_task (HInt 1), one_task (HInt 1), one_task (HInt 1)] (Some tenth_rates)
     = Inr \<lparr>breakdown = [tenth_line, tenth_line, tenth_line],
            total = Fin (1351079888211149 / 4503599627370496)\<rparr> \<and>
   num_value (c_cost tenth_line) + num_value (c_cost tenth_line) + num_value (c_cost tenth_line)
     = 10808639105689191 / 36028797018963968 \<and>
   (1351079888211149 / 4503599627370496 :: rat) \<noteq> 10808639105689191 / 36028797018963968 \<and>
   round_double (1 / 10) = tenth \<and>
   estimate_cost [one_task HNull] (Some unit_rates) = Inl TypeError \<and>
   estimate_cost [one_task (HInt (2 ^ 1024))] (Some unit_rates) = Inl OverflowError"
  unfolding counterexample_rounding counterexample_float_rate tenth_is_double
    counterexample_null_hours counterexample_overflow
  by (simp add: tenth_line_def big_line_def tenth_def)

lemma for_each_append:
  "for_each body (xs @ ys) s = and_then (for_each body xs s) (for_each body ys)"
  by (induction xs arbitrary: s) (auto split: sum.splits)

lemma for_each_snoc:
  "for_each body (xs @ [x]) s = and_then (for_each body xs s) (body x)"
  by (cases "for_each body xs s") (simp_all add: for_each_append split: sum.splits)

lemma id_map_step_Inr:
  "id_map_step t m = Inr m' \<longleftrightarrow> (\<exists>k. t_id t = Some k \<and> m' = AList.update k t m)"
  by (auto simp: id_map_step_def split: option.splits)

lemma task_ids_simps [simp]:
  "task_ids [] = {}"
  "task_ids (t # ts) = (case t_id t of None \<Rightarrow> {} | Some k \<Rightarrow> {k}) \<union> task_ids ts"
  by (auto simp: task_ids_def split: option.splits)

lemma id_map_loop:
  assumes "for_each id_map_step ts m = Inr idm"
    and "distinct (map fst m)"
    and "\<forall>k t. map_of m k = Some t \<longrightarrow> t_id t = Some k"
  shows "distinct (map fst idm)
       \<and> (\<forall>k t. map_of idm k = Some t \<longrightarrow> t_id t = Some k)
       \<and> fst ` set idm = fst ` set m \<union> task_ids ts
       \<and> (\<forall>t\<in>set ts. has_id t)"
  using assms
proof (induction ts arbitrary: m)
  case Nil
  then show ?case by simp
next
  case (Cons t ts)
  from Cons.prems(1) obtain k where k: "t_id t = Some k"
    and rest: "for_each id_map_step ts (AList.update k t m) = Inr idm"
    unfolding for_each_Cons_Inr id_map_step_Inr by blast
  have d: "distinct (map fst (AList.update k t m))"
    using Cons.prems(2) by (rule distinct_update)
  have i: "\<forall>k' t'. map_of (AList.update k t m) k' = Some t' \<longrightarrow> t_id t' = Some k'"
    using Cons.prems(3) k by (auto simp: update_conv')
  from Cons.IH [OF rest d i] k show ?case
    by (auto simp: dom_update has_id_def)
qed

lemma build_id_map_facts:
  assumes "build_id_map tasks = Inr idm"
  shows "distinct (map fst idm)"
    and "\<And>k t. map_of idm k = Some t \<Longrightarrow> t_id t = Some k"
    and "fst ` set idm = task_ids tasks"
    and "\<forall>t\<in>set tasks. has_id t"
  using id_map_loop [of tasks "[]" idm] assms by (auto simp: build_id_map_def)



text \<open>values of the id map are input tasks\<close>

lemma id_map_loop_values:
  "for_each id_map_step ts m = Inr idm \<Longrightarrow> snd ` set idm \<subseteq> snd ` set m \<union> set ts"
proof (induction ts arbitrary: m)
  case Nil
  then show ?case by simp
next
  case (Cons t ts)
  from Cons.prems obtain k where k: "t_id t = Some k"
    and rest: "for_each id_map_step ts (AList.update k t m) = Inr idm"
    unfolding for_each_Cons_Inr id_map_step_Inr by blast
  have "snd ` set (AList.update k t m) \<subseteq> insert t (snd ` set m)"
    by (induction m) auto
  with Cons.IH [OF rest] show ?case by auto
qed

lemma build_id_map_values:
  "build_id_map tasks = Inr idm \<Longrightarrow> snd ` set idm \<subseteq> set tasks"
  using id_map_loop_values [of tasks "[]" idm] by (simp add: build_id_map_def)




lemma deps_set_Inr:
  "deps_set t = Inr ds \<longleftrightarrow> t_depends_on t \<noteq> Some DNull \<and> ds = set (deps_list t)"
  by (auto simp: deps_set_def deps_list_def split: option.splits deps_field.splits)

lemma deps_map_step_Inr:
  "deps_map_step kt dm = Inr dm' \<longleftrightarrow>
     t_depends_on (snd kt) \<noteq> Some DNull \<and> dm' = dm(fst kt \<mapsto> set (deps_list (snd kt)))"
  by (auto simp: deps_map_step_def and_then_eq_Inr deps_set_Inr)

lemma deps_map_loop:
  "for_each deps_map_step kts dm0 = Inr dm1 \<Longrightarrow> distinct (map fst kts) \<Longrightarrow>
     (\<forall>k. dm1 k = (case map_of kts k of Some t \<Rightarrow> Some (set (deps_list t)) | None \<Rightarrow> dm0 k))
     \<and> (\<forall>kt\<in>set kts. t_depends_on (snd kt) \<noteq> Some DNull)"
proof (induction kts arbitrary: dm0)
  case Nil
  then show ?case by simp
next
  case (Cons kt kts)
  from Cons.prems(1) have ok: "t_depends_on (snd kt) \<noteq> Some DNull"
    and rest: "for_each deps_map_step kts (dm0(fst kt \<mapsto> set (deps_list (snd kt)))) = Inr dm1"
    unfolding for_each_Cons_Inr deps_map_step_Inr by auto
  from Cons.prems(2) have d: "distinct (map fst kts)" and nk: "fst kt \<notin> fst ` set kts"
    by auto
  from nk have none: "map_of kts (fst kt) = None"
    by (simp add: map_of_eq_None_iff)
  from Cons.IH [OF rest d] ok none show ?case
    by (cases kt) (auto split: option.splits)
qed


lemma build_deps_map_facts:
  assumes "build_deps_map idm = Inr dm" and "distinct (map fst idm)"
  shows "dm k = map_option (\<lambda>t. set (deps_list t) \<inter> fst ` set idm) (map_of idm k)"
    and "\<forall>kt\<in>set idm. t_depends_on (snd kt) \<noteq> Some DNull"
proof -
  from assms(1) obtain dm1 where l: "for_each deps_map_step idm Map.empty = Inr dm1"
    and dm: "dm = drop_dangling idm dm1"
    by (auto simp: build_deps_map_def and_then_eq_Inr)
  from deps_map_loop [OF l assms(2)] dm
  show "dm k = map_option (\<lambda>t. set (deps_list t) \<inter> fst ` set idm) (map_of idm k)"
    and "\<forall>kt\<in>set idm. t_depends_on (snd kt) \<noteq> Some DNull"
    by (auto simp: drop_dangling_def split: option.splits)
qed


subsection \<open>topological pass\<close>

lemma removeAll_filter_out:
  "filter (\<lambda>x. x \<notin> set rs) (removeAll r ys) = filter (\<lambda>x. x \<noteq> r \<and> x \<notin> set rs) ys"
  by (induction ys) auto

lemma fold_emit_fst:
  "fst (fold emit rs s) = filter (\<lambda>x. x \<notin> set rs) (fst s)"
proof (induction rs arbitrary: s)
  case Nil
  show ?case by simp
next
  case (Cons r rs)
  have "fst (fold emit (r # rs) s) = filter (\<lambda>x. x \<notin> set rs) (fst (emit r s))"
    using Cons.IH [of "emit r s"] by simp
  also have "fst (emit r s) = removeAll r (fst s)"
    by (simp add: emit_def)
  finally show ?case
    by (simp add: removeAll_filter_out conj_commute)
qed

lemma fold_emit_snd:
  "snd (fold emit rs s) k = map_option (\<lambda>ds. ds - set rs) (snd s k)"
proof (induction rs arbitrary: s)
  case Nil
  show ?case by (simp add: option.map_ident)
next
  case (Cons r rs)
  have "snd (fold emit (r # rs) s) k = map_option (\<lambda>ds. ds - set rs) (snd (emit r s) k)"
    using Cons.IH [of "emit r s"] by simp
  also have "snd (emit r s) k = map_option (\<lambda>ds. ds - {r}) (snd s k)"
    by (simp add: emit_def)
  finally show ?case
    by (cases "snd s k") auto
qed

lemma fold_emit:
  "fold emit rs (remaining, dm) = (filter (\<lambda>x. x \<notin> set rs) remaining, strike rs dm)"
  by (rule prod_eqI) (auto simp: fold_emit_fst fold_emit_snd strike_def)

lemma topo_loop_Nil [simp]: "topo_loop [] dm = []"
  by (subst topo_loop.simps) simp

lemma topo_loop_step:
  "remaining \<noteq> [] \<Longrightarrow>
   topo_loop remaining dm =
     ready_batch remaining dm #
     topo_loop (filter (\<lambda>x. x \<notin> set (ready_batch remaining dm)) remaining)
               (strike (ready_batch remaining dm) dm)"
  by (subst topo_loop.simps) (simp add: fold_emit)

lemma topo_loop_induct [consumes 0, case_names empty step]:
  assumes "\<And>dm. P [] dm"
    and "\<And>remaining dm. remaining \<noteq> [] \<Longrightarrow>
           P (filter (\<lambda>x. x \<notin> set (ready_batch remaining dm)) remaining)
             (strike (ready_batch remaining dm) dm) \<Longrightarrow> P remaining dm"
  shows "P remaining dm"
proof (induction remaining dm rule: topo_loop.induct)
  case (1 remaining dm)
  show ?case
  proof (cases "remaining = []")
    case True
    then show ?thesis using assms(1) by simp
  next
    case False
    with 1 [OF False] assms(2) [OF False] show ?thesis
      by (simp add: fold_emit)
  qed
qed


lemma ready_batch_subset: "set (ready_batch remaining dm) \<subseteq> set remaining"
  by (auto simp: ready_batch_def Let_def)

lemma ready_batch_distinct: "distinct remaining \<Longrightarrow> distinct (ready_batch remaining dm)"
  by (auto simp: ready_batch_def Let_def)

lemma ready_batch_nonempty: "remaining \<noteq> [] \<Longrightarrow> ready_batch remaining dm \<noteq> []"
  by (auto simp: ready_batch_def Let_def)

lemma topo_loop_covers:
  "distinct remaining \<Longrightarrow>
     distinct (concat (topo_loop remaining dm)) \<and> set (concat (topo_loop remaining dm)) = set remaining"
proof (induction remaining dm rule: topo_loop_induct)
  case (empty dm)
  show ?case by simp
next
  case (step remaining dm)
  let ?b = "ready_batch remaining dm"
  let ?rest = "filter (\<lambda>x. x \<notin> set ?b) remaining"
  from step.prems have "distinct ?rest" by simp
  from step.IH [OF this] have d: "distinct (concat (topo_loop ?rest (strike ?b dm)))"
    and s: "set (concat (topo_loop ?rest (strike ?b dm))) = set ?rest"
    by simp_all
  have "set ?b \<inter> set ?rest = {}" by auto
  moreover have "set ?b \<union> set ?rest = set remaining"
    using ready_batch_subset [of remaining dm] by auto
  ultimately show ?case
    using d s ready_batch_distinct [OF step.prems, of dm]
    by (simp add: topo_loop_step [OF step.hyps])
qed


lemma add_days_Inr:
  "add_days dt n = Inr r \<longleftrightarrow>
     \<bar>n\<bar> \<le> 999999999 \<and> 1 \<le> fst dt + n \<and> fst dt + n \<le> MAXORDINAL \<and> r = (fst dt + n, snd dt)"
  by (auto simp: add_days_def)

lemma hours_to_days_Inr:
  "hours_to_days cap h = Inr d \<longleftrightarrow> cap \<noteq> 0 \<and> d = max 1 ((h + cap - 1) div cap)"
  by (auto simp: hours_to_days_def)

lemma buffer_days_nonneg: "0 \<le> buffer_days d"
  by (simp add: buffer_days_def)

lemma fst_mono_datetime: "(a::datetime) \<le> b \<Longrightarrow> fst a \<le> fst b"
  by (auto simp: less_eq_prod_def)

lemma fst_max_ge1: "fst (a::datetime) \<le> fst (max a b)"
  by (rule fst_mono_datetime) simp

lemma fst_max_ge2: "fst (b::datetime) \<le> fst (max a b)"
  by (rule fst_mono_datetime) simp

lemma max_cases_datetime: "max (a::datetime) b = a \<or> max a b = b"
  by (simp add: max_def)

lemma strptime_Inr: "strptime d = Inr r \<longleftrightarrow> 364878 \<le> d \<and> r = (d, 0)"
  by (auto simp: strptime_def)

lemma map_err_strptime_Inr:
  "map_err strptime xs = Inr ys \<longleftrightarrow> (\<forall>d\<in>set xs. 364878 \<le> d) \<and> ys = map (\<lambda>d. (d, 0)) xs"
proof (induction xs arbitrary: ys)
  case Nil
  then show ?case by auto
next
  case (Cons x xs)
  show ?case
  proof (cases "strptime x")
    case (Inl e)
    then show ?thesis by (auto simp: strptime_def split: if_splits)
  next
    case (Inr r)
    then have r: "364878 \<le> x" "r = (x, 0)" by (simp_all add: strptime_Inr)
    show ?thesis
    proof (cases "map_err strptime xs")
      case (Inl e)
      with Cons.IH have "\<not> (\<forall>d\<in>set xs. 364878 \<le> d)" by auto
      with Inl Inr show ?thesis by auto
    next
      case (Inr zs)
      with Cons.IH [of zs] have "(\<forall>d\<in>set xs. 364878 \<le> d)" "zs = map (\<lambda>d. (d, 0)) xs" by simp_all
      with Inr \<open>strptime x = Inr r\<close> r show ?thesis by auto
    qed
  qed
qed

lemma set_map_filter_eq: "set (List.map_filter f xs) = {y. \<exists>x\<in>set xs. f x = Some y}"
  by (induction xs) (auto simp: List.map_filter_simps split: option.splits)

lemma set_deps_end_dates:
  assumes "deps_end_dates dates deps = Inr des"
  shows "set des = {(s_end_date v, 0) | d v. d \<in> set deps \<and> map_of dates d = Some v}"
proof -
  from assms have "des = map (\<lambda>d. (d, 0))
      (List.map_filter (\<lambda>d. map_option s_end_date (map_of dates d)) deps)"
    by (simp add: deps_end_dates_def map_err_strptime_Inr)
  then show ?thesis by (auto simp: set_map_filter_eq)
qed


lemma earliest_start_Inr:
  assumes "earliest_start ps des = Inr e"
  shows "fst ps \<le> fst e" and "\<And>x. x \<in> set des \<Longrightarrow> fst x + 1 \<le> fst e"
    and "e = ps \<or> (\<exists>x\<in>set des. e = (fst x + 1, snd x))"
proof -
  show "fst ps \<le> fst e"
    using assms by (auto simp: earliest_start_def and_then_eq_Inr fst_max_ge1 split: if_splits)
  show "e = ps \<or> (\<exists>x\<in>set des. e = (fst x + 1, snd x))"
  proof (cases "des = []")
    case True
    with assms show ?thesis by (simp add: earliest_start_def)
  next
    case False
    then have "Max (set des) \<in> set des" by (intro Max_in) simp_all
    moreover from assms False have "e = max ps (fst (Max (set des)) + 1, snd (Max (set des)))"
      by (auto simp: earliest_start_def and_then_eq_Inr add_days_Inr)
    ultimately show ?thesis
      using max_cases_datetime [of ps "(fst (Max (set des)) + 1, snd (Max (set des)))"] by auto
  qed
  show "fst x + 1 \<le> fst e" if "x \<in> set des" for x
  proof -
    from that have ne: "des \<noteq> []" by auto
    from that have "x \<le> Max (set des)" by simp
    then have "fst x \<le> fst (Max (set des))" by (rule fst_mono_datetime)
    moreover from assms ne have "e = max ps (fst (Max (set des)) + 1, snd (Max (set des)))"
      by (auto simp: earliest_start_def and_then_eq_Inr add_days_Inr)
    then have "fst (Max (set des)) + 1 \<le> fst e"
      using fst_max_ge2 [of "(fst (Max (set des)) + 1, snd (Max (set des)))" ps] by simp
    ultimately show ?thesis by simp
  qed
qed

lemma schedule_step_Inr:
  assumes "schedule_step ps cap t s = Inr s'"
  obtains hours des earliest start tid where
    "get_hours t = Inr hours" and "cap \<noteq> 0" and "t_id t = Some tid"
    and "deps_end_dates (dates_for_id s) (deps_list t) = Inr des"
    and "earliest_start ps des = Inr earliest"
    and "start = max earliest (role_free_of ps s (get_role t))"
    and "s_end_date (entry_of cap t tid hours (fst start)) + 1 \<le> MAXORDINAL"
    and "dates_for_id s' = AList.update tid (entry_of cap t tid hours (fst start)) (dates_for_id s)"
    and "role_next_free s' = (role_next_free s)(get_role t \<mapsto>
           (s_end_date (entry_of cap t tid hours (fst start)) + 1, snd start))"
proof -
  from assms obtain hours d des earliest e1 e2 tid nf where
    h: "get_hours t = Inr hours" and d: "hours_to_days cap hours = Inr d"
    and de: "deps_end_dates (dates_for_id s) (deps_list t) = Inr des"
    and e: "earliest_start ps des = Inr earliest"
    and e1: "add_days (max earliest (role_free_of ps s (get_role t))) (d - 1) = Inr e1"
    and e2: "add_days e1 (buffer_days d) = Inr e2"
    and tid: "t_id t = Some tid"
    and nf: "add_days e2 1 = Inr nf"
    and s': "s' = \<lparr>dates_for_id = AList.update tid
               \<lparr>s_id = tid, s_title = t_title t, s_role = get_role t, s_hours = hours,
                s_start_date = format_date (max earliest (role_free_of ps s (get_role t))),
                s_end_date = format_date e2,
                s_duration_days = d + buffer_days d,
                s_depends_on = deps_list t\<rparr> (dates_for_id s),
              role_next_free = (role_next_free s)(get_role t \<mapsto> nf)\<rparr>"
    unfolding schedule_step_def Let_def and_then_eq_Inr role_free_of_def
    by (auto split: option.splits)
  let ?start = "max earliest (role_free_of ps s (get_role t))"
  from d have cap: "cap \<noteq> 0" and dd: "d = raw_days cap hours"
    by (simp_all add: hours_to_days_Inr raw_days_def)
  from e1 e2 nf have f: "e2 = (fst ?start + (d - 1) + buffer_days d, snd ?start)"
    "nf = (fst ?start + (d - 1) + buffer_days d + 1, snd ?start)"
    "fst ?start + (d - 1) + buffer_days d + 1 \<le> MAXORDINAL"
    by (auto simp: add_days_Inr)
  show thesis
    by (rule that [OF h cap tid de e refl])
      (use f s' dd in \<open>simp_all add: entry_of_def format_date_def\<close>)
qed

lemma update_fresh:
  "k \<notin> fst ` set al \<Longrightarrow> AList.update k v al = al @ [(k, v)]"
  by (induction al) auto

lemma raw_days_pos: "1 \<le> raw_days cap h"
  by (simp add: raw_days_def)

lemma entry_of_simps [simp]:
  "s_id (entry_of cap t tid hours d) = tid"
  "s_title (entry_of cap t tid hours d) = t_title t"
  "s_role (entry_of cap t tid hours d) = get_role t"
  "s_hours (entry_of cap t tid hours d) = hours"
  "s_start_date (entry_of cap t tid hours d) = d"
  "s_depends_on (entry_of cap t tid hours d) = deps_list t"
  "s_duration_days (entry_of cap t tid hours d) = raw_days cap hours + buffer_days (raw_days cap hours)"
  "s_end_date (entry_of cap t tid hours d) = d + (raw_days cap hours - 1) + buffer_days (raw_days cap hours)"
  by (simp_all add: entry_of_def)

lemma entry_of_start_le_end:
  "d \<le> s_end_date (entry_of cap t tid hours d)"
  using raw_days_pos [of cap hours] buffer_days_nonneg [of "raw_days cap hours"] by simp

text \<open>what one step adds, when the id is new\<close>

lemma schedule_step_fresh:
  assumes step: "schedule_step ps cap t s = Inr s'"
    and tid: "t_id t = Some tid" and fresh: "tid \<notin> fst ` set (dates_for_id s)"
  obtains e nf where
    "dates_for_id s' = dates_for_id s @ [(tid, e)]"
    and "role_next_free s' = (role_next_free s)(get_role t \<mapsto> nf)"
    and "s_id e = tid" and "s_role e = get_role t" and "s_title e = t_title t"
    and "get_hours t = Inr (s_hours e)" and "s_depends_on e = deps_list t"
    and "cap \<noteq> 0"
    and "s_duration_days e = raw_days cap (s_hours e) + buffer_days (raw_days cap (s_hours e))"
    and "s_end_date e = s_start_date e + s_duration_days e - 1"
    and "fst nf = s_end_date e + 1" and "fst nf \<le> MAXORDINAL"
    and "fst ps \<le> s_start_date e"
    and "s_start_date e \<le> s_end_date e"
    and "\<And>f. role_next_free s (get_role t) = Some f \<Longrightarrow> fst f \<le> s_start_date e"
    and "\<And>d b. d \<in> set (deps_list t) \<Longrightarrow> map_of (dates_for_id s) d = Some b \<Longrightarrow>
           s_end_date b < s_start_date e"
proof -
  from step obtain hours des earliest start tid' where
    h: "get_hours t = Inr hours" and cap: "cap \<noteq> 0" and tid': "t_id t = Some tid'"
    and de: "deps_end_dates (dates_for_id s) (deps_list t) = Inr des"
    and e: "earliest_start ps des = Inr earliest"
    and st: "start = max earliest (role_free_of ps s (get_role t))"
    and mx: "s_end_date (entry_of cap t tid' hours (fst start)) + 1 \<le> MAXORDINAL"
    and ds: "dates_for_id s' = AList.update tid' (entry_of cap t tid' hours (fst start)) (dates_for_id s)"
    and rn: "role_next_free s' = (role_next_free s)(get_role t \<mapsto>
           (s_end_date (entry_of cap t tid' hours (fst start)) + 1, snd start))"
    by (rule schedule_step_Inr)
  from tid tid' have [simp]: "tid' = tid" by simp
  let ?e = "entry_of cap t tid hours (fst start)"
  have ge_e: "fst earliest \<le> fst start"
    unfolding st by (rule fst_max_ge1)
  have ps_le: "fst ps \<le> fst start"
    using earliest_start_Inr(1) [OF e] ge_e by simp
  have rf: "fst f \<le> fst start" if "role_next_free s (get_role t) = Some f" for f
    using that fst_max_ge2 [of "role_free_of ps s (get_role t)" earliest]
    by (simp add: st role_free_of_def)
  have dp: "s_end_date b < fst start"
    if "d \<in> set (deps_list t)" "map_of (dates_for_id s) d = Some b" for d b
  proof -
    from that have "(s_end_date b, 0) \<in> set des"
      unfolding set_deps_end_dates [OF de] by blast
    from earliest_start_Inr(2) [OF e this] ge_e show ?thesis
      by simp
  qed
  show thesis
  proof (rule that [of ?e "(s_end_date ?e + 1, snd start)"])
    show "dates_for_id s' = dates_for_id s @ [(tid, ?e)]"
      using ds fresh by (simp add: update_fresh)
    show "role_next_free s' = (role_next_free s)(get_role t \<mapsto> (s_end_date ?e + 1, snd start))"
      using rn by simp
    show "fst (s_end_date ?e + 1, snd start) \<le> MAXORDINAL"
      using mx by simp
    show "s_start_date ?e \<le> s_end_date ?e"
      using entry_of_start_le_end [of "fst start" cap t tid hours] by simp
  qed (use h cap ps_le rf dp in \<open>simp_all\<close>)
qed

lemma schedule_step_inv:
  assumes step: "schedule_step ps cap t s = Inr s'"
    and tid: "t_id t = Some tid" and fresh: "tid \<notin> fst ` set (dates_for_id s)"
    and inv: "sched_inv ps cap s"
  shows "sched_inv ps cap s'"
proof -
  obtain e nf where
    ds: "dates_for_id s' = dates_for_id s @ [(tid, e)]"
    and rn: "role_next_free s' = (role_next_free s)(get_role t \<mapsto> nf)"
    and id: "s_id e = tid" and role: "s_role e = get_role t"
    and deps: "s_depends_on e = deps_list t"
    and nf: "fst nf = s_end_date e + 1"
    and ps: "fst ps \<le> s_start_date e"
    and se: "s_start_date e \<le> s_end_date e"
    and rf: "\<And>f. role_next_free s (get_role t) = Some f \<Longrightarrow> fst f \<le> s_start_date e"
    and dp: "\<And>d b. d \<in> set (deps_list t) \<Longrightarrow> map_of (dates_for_id s) d = Some b \<Longrightarrow>
           s_end_date b < s_start_date e"
    by (rule schedule_step_fresh [OF step tid fresh]) blast
  from inv have dist: "distinct (map fst (dates_for_id s))"
    and ok: "\<And>ke. ke \<in> set (dates_for_id s) \<Longrightarrow> entry_ok ps cap s ke"
    and ra: "sorted_wrt role_apart (map snd (dates_for_id s))"
    and da: "sorted_wrt dep_apart (map snd (dates_for_id s))"
    by (simp_all add: sched_inv_def)
  have old_role: "role_apart (snd ke) e" if "ke \<in> set (dates_for_id s)" for ke
  proof -
    from ok [OF that] obtain f where f: "role_next_free s (s_role (snd ke)) = Some f"
      and lt: "s_end_date (snd ke) < fst f"
      by (auto simp: entry_ok_def)
    show ?thesis
      unfolding role_apart_def
    proof
      assume "s_role (snd ke) = s_role e"
      with f role have "role_next_free s (get_role t) = Some f" by simp
      from rf [OF this] lt show "s_end_date (snd ke) < s_start_date e" by simp
    qed
  qed
  have old_dep: "dep_apart (snd ke) e" if "ke \<in> set (dates_for_id s)" for ke
  proof -
    from ok [OF that] have k: "s_id (snd ke) = fst ke" by (simp add: entry_ok_def)
    have m: "map_of (dates_for_id s) (fst ke) = Some (snd ke)"
      using that by (simp add: map_of_eq_Some_iff [OF dist])
    show ?thesis
      unfolding dep_apart_def using dp [OF _ m] k deps by simp
  qed
  have ok_old: "entry_ok ps cap s' ke" if "ke \<in> set (dates_for_id s)" for ke
  proof (cases "s_role (snd ke) = get_role t")
    case True
    from old_role [OF that] True role have "s_end_date (snd ke) < s_start_date e"
      by (simp add: role_apart_def)
    with se nf have "s_end_date (snd ke) < fst nf" by simp
    with ok [OF that] True rn show ?thesis
      by (simp add: entry_ok_def)
  next
    case False
    with ok [OF that] rn show ?thesis
      by (simp add: entry_ok_def)
  qed
  have ok_new: "entry_ok ps cap s' (tid, e)"
    using id ps se nf rn role by (simp add: entry_ok_def)
  show ?thesis
    unfolding sched_inv_def ds
    using dist fresh ok_old ok_new ra da old_role old_dep
    by (auto simp: sorted_wrt_append)
qed

lemma schedule_loop:
  assumes "for_each (schedule_step ps cap) ts s = Inr s'"
    and "map t_id ts = map Some ids" and "distinct ids"
    and "set ids \<inter> fst ` set (dates_for_id s) = {}"
    and "sched_inv ps cap s"
  shows "sched_inv ps cap s' \<and>
         (\<exists>es. dates_for_id s' = dates_for_id s @ zip ids es \<and> list_all2 (entry_for cap) ts es)"
  using assms
proof (induction ts arbitrary: s ids)
  case Nil
  then show ?case by simp
next
  case (Cons t ts)
  from Cons.prems(2) obtain tid ids' where ids: "ids = tid # ids'" and tid: "t_id t = Some tid"
    and rest_ids: "map t_id ts = map Some ids'"
    by (cases ids) auto
  from Cons.prems(1) obtain s1 where step: "schedule_step ps cap t s = Inr s1"
    and rest: "for_each (schedule_step ps cap) ts s1 = Inr s'"
    unfolding for_each_Cons_Inr by blast
  from Cons.prems(4) ids have fresh: "tid \<notin> fst ` set (dates_for_id s)" by auto
  obtain e where
    ds: "dates_for_id s1 = dates_for_id s @ [(tid, e)]"
    and ef: "entry_for cap t e"
  proof (rule schedule_step_fresh [OF step tid fresh])
    fix e nf
    assume "dates_for_id s1 = dates_for_id s @ [(tid, e)]"
      and "s_id e = tid" and "s_role e = get_role t" and "s_title e = t_title t"
      and "get_hours t = Inr (s_hours e)" and "s_depends_on e = deps_list t"
      and "s_duration_days e = raw_days cap (s_hours e) + buffer_days (raw_days cap (s_hours e))"
      and "s_end_date e = s_start_date e + s_duration_days e - 1"
    with tid show thesis
      by (intro that [of e]) (simp_all add: entry_for_def)
  qed
  have inv1: "sched_inv ps cap s1"
    using step tid fresh Cons.prems(5) by (rule schedule_step_inv)
  from Cons.prems(3,4) ids ds have d': "distinct ids'"
    and dj: "set ids' \<inter> fst ` set (dates_for_id s1) = {}"
    by auto
  from Cons.IH [OF rest rest_ids d' dj inv1] obtain es where
    inv: "sched_inv ps cap s'" and es: "dates_for_id s' = dates_for_id s1 @ zip ids' es"
    and all: "list_all2 (entry_for cap) ts es"
    by blast
  have "dates_for_id s' = dates_for_id s @ zip ids (e # es)"
    using es ds ids by simp
  moreover have "list_all2 (entry_for cap) (t # ts) (e # es)"
    using ef all by simp
  ultimately show ?case using inv by blast
qed

lemma sched_inv_init: "sched_inv ps cap init_state"
  by (simp add: sched_inv_def init_state_def)

lemma estimate_timeline_Inr:
  assumes "estimate_timeline so tasks ps cap = Inr tline"
  obtains idm dm s pe where
    "build_id_map tasks = Inr idm" and "build_deps_map idm = Inr dm"
    and "for_each (schedule_step ps cap) (ordered_tasks so idm dm) init_state = Inr s"
    and "tl_task_schedule tline = map snd (dates_for_id s)"
    and "tl_project_start tline = fst ps"
    and "project_end_of ps (dates_for_id s) = Inr pe"
    and "tl_project_end tline = fst pe"
    and "tl_total_work_days tline = delta_days pe ps + 1"
    and "tl_role_days tline = fold role_days_step (map snd (dates_for_id s)) []"
  using assms
  unfolding estimate_timeline_def and_then_eq_Inr Let_def init_state_def [symmetric]
  by (auto simp: format_date_def)

lemma ordered_tasks_ids:
  fixes dm :: "string \<rightharpoonup> string set"
  assumes idm: "build_id_map tasks = Inr idm" and so: "is_set_order so"
  defines "order \<equiv> concat (topo_loop (so (map fst idm)) dm)"
  shows "distinct order" and "set order = task_ids tasks"
    and "map t_id (ordered_tasks so idm dm) = map Some order"
    and "set (ordered_tasks so idm dm) \<subseteq> snd ` set idm"
proof -
  note f = build_id_map_facts [OF idm]
  from so f(1) have d: "distinct (so (map fst idm))" and s: "set (so (map fst idm)) = fst ` set idm"
    by (auto simp: is_set_order_def)
  from topo_loop_covers [OF d, of dm] s f(3)
  show do: "distinct order" and so': "set order = task_ids tasks"
    by (simp_all add: order_def)
  have look: "\<exists>t. map_of idm r = Some t \<and> t_id t = Some r" if "r \<in> set order" for r
  proof -
    from that so' f(3) have "r \<in> fst ` set idm" by simp
    then obtain t where "map_of idm r = Some t"
      by (metis domD dom_map_of_conv_image_fst)
    with f(2) show ?thesis by auto
  qed
  show "map t_id (ordered_tasks so idm dm) = map Some order"
    unfolding ordered_tasks_def order_def [symmetric]
    using look by (fastforce simp: comp_def)
  show "set (ordered_tasks so idm dm) \<subseteq> snd ` set idm"
    unfolding ordered_tasks_def order_def [symmetric]
    using look by (force dest: map_of_SomeD)
qed

lemma timeline_structure:
  assumes tline: "estimate_timeline so tasks ps cap = Inr tline" and so: "is_set_order so"
  shows "map s_id (tl_task_schedule tline) = concat (emitted_batches so tasks)"
    and "distinct (map s_id (tl_task_schedule tline))"
    and "set (map s_id (tl_task_schedule tline)) = task_ids tasks"
    and "sorted_wrt role_apart (tl_task_schedule tline)"
    and "sorted_wrt dep_apart (tl_task_schedule tline)"
    and "\<forall>e\<in>set (tl_task_schedule tline). \<exists>t\<in>set tasks. entry_for cap t e"
    and "\<forall>e\<in>set (tl_task_schedule tline). fst ps \<le> s_start_date e \<and> s_start_date e \<le> s_end_date e"
proof -
  from tline obtain idm dm s where idm: "build_id_map tasks = Inr idm"
    and dm: "build_deps_map idm = Inr dm"
    and loop: "for_each (schedule_step ps cap) (ordered_tasks so idm dm) init_state = Inr s"
    and sch: "tl_task_schedule tline = map snd (dates_for_id s)"
    by (rule estimate_timeline_Inr)
  let ?order = "concat (topo_loop (so (map fst idm)) dm)"
  note o = ordered_tasks_ids [OF idm so, of dm]
  have eb: "concat (emitted_batches so tasks) = ?order"
    by (simp add: emitted_batches_def idm dm)
  have "set ?order \<inter> fst ` set (dates_for_id init_state) = {}"
    by (simp add: init_state_def)
  from schedule_loop [OF loop o(3) o(1) this sched_inv_init] obtain es where
    inv: "sched_inv ps cap s" and ds: "dates_for_id s = zip ?order es"
    and all: "list_all2 (entry_for cap) (ordered_tasks so idm dm) es"
    by (auto simp: init_state_def)
  from all have len: "length es = length ?order"
    using o(3) by (metis length_map list_all2_lengthD)
  from ds len have es: "tl_task_schedule tline = es" and keys: "map fst (dates_for_id s) = ?order"
    by (simp_all add: sch)
  have ids: "map s_id es = ?order"
  proof (rule nth_equalityI)
    show "length (map s_id es) = length ?order" using len by simp
    fix i assume "i < length (map s_id es)"
    then have i: "i < length es" by simp
    with all have "entry_for cap (ordered_tasks so idm dm ! i) (es ! i)"
      by (simp add: list_all2_conv_all_nth)
    then have "t_id (ordered_tasks so idm dm ! i) = Some (s_id (es ! i))"
      by (simp add: entry_for_def)
    moreover have "t_id (ordered_tasks so idm dm ! i) = Some (?order ! i)"
      using o(3) i len by (metis length_map nth_map)
    ultimately show "map s_id es ! i = ?order ! i" using i by simp
  qed
  show "map s_id (tl_task_schedule tline) = concat (emitted_batches so tasks)"
    using ids es eb by simp
  show "distinct (map s_id (tl_task_schedule tline))"
    using ids es o(1) by simp
  show "set (map s_id (tl_task_schedule tline)) = task_ids tasks"
    using ids es o(2) by simp
  show "sorted_wrt role_apart (tl_task_schedule tline)"
    using inv sch by (simp add: sched_inv_def)
  show "sorted_wrt dep_apart (tl_task_schedule tline)"
    using inv sch by (simp add: sched_inv_def)
  show "\<forall>e\<in>set (tl_task_schedule tline). \<exists>t\<in>set tasks. entry_for cap t e"
  proof
    fix e assume "e \<in> set (tl_task_schedule tline)"
    with es obtain i where i: "i < length es" "e = es ! i"
      by (auto simp: in_set_conv_nth)
    with all have "entry_for cap (ordered_tasks so idm dm ! i) e"
      by (simp add: list_all2_conv_all_nth)
    moreover have "ordered_tasks so idm dm ! i \<in> set (ordered_tasks so idm dm)"
      using i all by (simp add: list_all2_lengthD)
    with o(4) build_id_map_values [OF idm] have "ordered_tasks so idm dm ! i \<in> set tasks"
      by blast
    ultimately show "\<exists>t\<in>set tasks. entry_for cap t e" by blast
  qed
  show "\<forall>e\<in>set (tl_task_schedule tline). fst ps \<le> s_start_date e \<and> s_start_date e \<le> s_end_date e"
  proof
    fix e assume "e \<in> set (tl_task_schedule tline)"
    with sch obtain ke where "ke \<in> set (dates_for_id s)" "e = snd ke" by auto
    with inv show "fst ps \<le> s_start_date e \<and> s_start_date e \<le> s_end_date e"
      by (auto simp: sched_inv_def entry_ok_def)
  qed
qed















subsection \<open>Runs that raise\<close>







lemma example_run:
  "estimate_timeline id example_tasks example_start 6 = Inr example_timeline"
  by code_simp

lemma is_set_order_id: "is_set_order id"
  by (simp add: is_set_order_def)

lemma is_set_order_rev: "is_set_order rev"
  by (simp add: is_set_order_def)





subsection \<open>Coverage of the schedule\<close>




subsection \<open>Tasks of one role\<close>

text \<open>
  Claim C4. The entries of \<^verbatim>\<open>task_schedule\<close> are in the order in which the topological
  pass emitted the tasks, batch after batch. Of any two entries with the same role, whether
  or not a dependency relates them, the one emitted first ends (with its buffer) before the
  other starts: the date ranges \<open>[start_date, end_date]\<close> do not overlap and follow the
  order of emission.
\<close>

theorem role_tracks_do_not_overlap:
  assumes "estimate_timeline so tasks ps cap = Inr tline" and "is_set_order so"
    and "i < j" and "j < length (tl_task_schedule tline)"
    and "s_role (tl_task_schedule tline ! i) = s_role (tl_task_schedule tline ! j)"
  shows "map s_id (tl_task_schedule tline) = concat (emitted_batches so tasks) \<and>
         s_start_date (tl_task_schedule tline ! i) \<le> s_end_date (tl_task_schedule tline ! i) \<and>
         s_end_date (tl_task_schedule tline ! i) < s_start_date (tl_task_schedule tline ! j) \<and>
         s_start_date (tl_task_schedule tline ! j) \<le> s_end_date (tl_task_schedule tline ! j)"
proof -
  note st = timeline_structure [OF assms(1,2)]
  from assms(3,4) have i: "i < length (tl_task_schedule tline)" by simp
  from st(4) assms(3,4) have "role_apart (tl_task_schedule tline ! i) (tl_task_schedule tline ! j)"
    by (simp add: sorted_wrt_iff_nth_less)
  with assms(5) have "s_end_date (tl_task_schedule tline ! i) < s_start_date (tl_task_schedule tline ! j)"
    by (simp add: role_apart_def)
  moreover from st(7) i assms(4)
  have "s_start_date (tl_task_schedule tline ! i) \<le> s_end_date (tl_task_schedule tline ! i)"
    and "s_start_date (tl_task_schedule tline ! j) \<le> s_end_date (tl_task_schedule tline ! j)"
    by (simp_all add: all_set_conv_all_nth)
  ultimately show ?thesis using st(1) by simp
qed

theorem role_tracks_do_not_overlap_witness:
  "estimate_timeline id example_tasks example_start 6 = Inr example_timeline \<and> is_set_order id \<and>
   (0::nat) < 1 \<and> 1 < length (tl_task_schedule example_timeline) \<and>
   s_role (tl_task_schedule example_timeline ! 0) = s_role (tl_task_schedule example_timeline ! 1) \<and>
   s_end_date (tl_task_schedule example_timeline ! 0) < s_start_date (tl_task_schedule example_timeline ! 1)"
proof -
  have h: "(0::nat) < 1" "1 < length (tl_task_schedule example_timeline)"
    "s_role (tl_task_schedule example_timeline ! 0) = s_role (tl_task_schedule example_timeline ! 1)"
    by (simp_all add: example_timeline_def)
  from role_tracks_do_not_overlap [OF example_run is_set_order_id h] h example_run is_set_order_id
  show ?thesis by simp
qed





subsection \<open>Inputs on which the estimators return\<close>












subsection \<open>The order of the ready tasks\<close>











end
